theory Spec2Isabelle
  imports
    Complex_Main
    "HOL-Library.Multiset"
    "HOL-Library.Sublist"
    "HOL-Library.Char_ord"
    "HOL-Library.List_Lexorder"
    "HOL-Library.Product_Lexorder"
begin

section \<open>Python values and text\<close>

text \<open>
  The script \<^verbatim>\<open>bank.py\<close> reads table cells from a PDF page; a cell is a Python
  \<^verbatim>\<open>str\<close> or \<^verbatim>\<open>None\<close>.  Text is modelled one \<^typ>\<open>char\<close> per code point, for
  the code points 0..255.  \<^verbatim>\<open>str(x)\<close> is \<open>py_str\<close>.
\<close>

datatype pyval = PNone | PBool bool | PStr string

fun py_str :: "pyval \<Rightarrow> string" where
  "py_str PNone = ''None''"
| "py_str (PBool b) = (if b then ''True'' else ''False'')"
| "py_str (PStr s) = s"

datatype error = ValueError

text \<open>\<^verbatim>\<open>str.isspace\<close> on one character: the code points 9..13, 28..32, 133 and 160.\<close>

definition isspace :: "char \<Rightarrow> bool" where
  "isspace c =
     (let n = (of_char c :: nat)
      in (9 \<le> n \<and> n \<le> 13) \<or> (28 \<le> n \<and> n \<le> 32) \<or> n = 133 \<or> n = 160)"

definition strip :: "string \<Rightarrow> string" where
  "strip s = rev (dropWhile isspace (rev (dropWhile isspace s)))"

text \<open>\<^verbatim>\<open>x.replace(",", "")\<close>: every comma is removed.\<close>

definition replace_comma :: "string \<Rightarrow> string" where
  "replace_comma s = filter (\<lambda>c. c \<noteq> CHR '','') s"

definition startswith :: "string \<Rightarrow> string \<Rightarrow> bool" where
  "startswith s p = (take (length p) s = p)"

definition endswith :: "string \<Rightarrow> string \<Rightarrow> bool" where
  "endswith s p = (length p \<le> length s \<and> drop (length s - length p) s = p)"

text \<open>The slice \<^verbatim>\<open>x[1:-1]\<close>.\<close>

definition slice_1_m1 :: "string \<Rightarrow> string" where
  "slice_1_m1 x = drop 1 (take (length x - 1) x)"

section \<open>Floating-point values and \<^verbatim>\<open>float(str)\<close>\<close>

text \<open>
  A Python float is a binary64 number: \<open>Fin r\<close> is the finite float of value \<open>r\<close>,
  beside the two infinities and NaN.  The two zeros are one value (they compare
  equal in Python).
\<close>

datatype pyfloat = Fin rat | PInf | NInf | NaN

fun fneg :: "pyfloat \<Rightarrow> pyfloat" where
  "fneg (Fin r) = Fin (- r)"
| "fneg PInf = NInf"
| "fneg NInf = PInf"
| "fneg NaN = NaN"

text \<open>Rounding a rational to the nearest integer, a tie to the even one.\<close>

definition round_half_even :: "rat \<Rightarrow> int" where
  "round_half_even x =
     (let f = \<lfloor>x\<rfloor>; d = x - of_int f
      in if d < 1 / 2 then f else if 1 / 2 < d then f + 1
         else if even f then f else f + 1)"

text \<open>
  The binary exponent of a magnitude \<open>a\<close>, kept within the exponents of binary64:
  the largest \<open>e\<close> from -1022 to \<open>n - 1022\<close> with \<open>2 ^ e \<le> a\<close>, and -1022 (the
  exponent of the subnormal numbers) when there is none.
\<close>

fun scan_exp :: "rat \<Rightarrow> nat \<Rightarrow> int" where
  "scan_exp a 0 = - 1022"
| "scan_exp a (Suc n) =
     (if 2 powi (int (Suc n) - 1022) \<le> a then int (Suc n) - 1022 else scan_exp a n)"

text \<open>
  Rounding to binary64, to nearest and a tie to even: the magnitude is rounded to a
  multiple of \<open>2 ^ (e - 52)\<close>, where \<open>e\<close> is its exponent (53 significant bits, or
  fewer for a subnormal result); a result of \<open>2 ^ 1024\<close> or more overflows to
  infinity.  It is what \<^verbatim>\<open>float(str)\<close> does with the decimal value of its text and
  what float addition does with the exact sum.
\<close>

definition round64 :: "rat \<Rightarrow> pyfloat" where
  "round64 q =
     (let a = \<bar>q\<bar>;
          t = scan_exp a 2045 - 52;
          r = of_int (round_half_even (a / 2 powi t)) * 2 powi t
      in if 2 powi 1024 \<le> r then (if 0 < q then PInf else NInf)
         else Fin (if 0 < q then r else - r))"

definition isdigit :: "char \<Rightarrow> bool" where
  "isdigit c = (let n = (of_char c :: nat) in 48 \<le> n \<and> n \<le> 57)"

definition digit_val :: "char \<Rightarrow> nat" where
  "digit_val c = of_char c - 48"

text \<open>The value of a digit string, most significant digit first.\<close>

definition digits_val :: "string \<Rightarrow> nat" where
  "digits_val ds = foldl (\<lambda>acc c. 10 * acc + digit_val c) 0 ds"

definition ascii_lower :: "char \<Rightarrow> char" where
  "ascii_lower c =
     (let n = (of_char c :: nat) in if 65 \<le> n \<and> n \<le> 90 then char_of (n + 32) else c)"

text \<open>
  Underscores in a numeric literal: each one must stand between two digits.  The
  scan keeps the previous character, as CPython's does (initially NUL).
\<close>

fun underscores_ok :: "char \<Rightarrow> string \<Rightarrow> bool" where
  "underscores_ok prev [] = (prev \<noteq> CHR ''_'')"
| "underscores_ok prev (c # cs) =
     (if c = CHR ''_'' then isdigit prev \<and> underscores_ok c cs
      else if prev = CHR ''_'' then isdigit c \<and> underscores_ok c cs
      else underscores_ok c cs)"

definition pow10 :: "int \<Rightarrow> rat" where
  "pow10 e = (if 0 \<le> e then 10 ^ nat e else 1 / 10 ^ nat (- e))"

text \<open>
  The exponent part: empty (exponent 0), or \<^verbatim>\<open>e\<close>/\<^verbatim>\<open>E\<close>, an optional sign and at
  least one digit, up to the end of the text.
\<close>

definition parse_exponent :: "string \<Rightarrow> int option" where
  "parse_exponent s =
     (case s of
        [] \<Rightarrow> Some 0
      | c # t \<Rightarrow>
          if c = CHR ''e'' \<or> c = CHR ''E'' then
            (case t of
               [] \<Rightarrow> None
             | d # u \<Rightarrow>
                 if d = CHR ''-'' then
                   (if u \<noteq> [] \<and> list_all isdigit u then Some (- int (digits_val u)) else None)
                 else if d = CHR ''+'' then
                   (if u \<noteq> [] \<and> list_all isdigit u then Some (int (digits_val u)) else None)
                 else
                   (if list_all isdigit t then Some (int (digits_val t)) else None))
          else None)"

text \<open>
  An unsigned decimal number: digits, an optional point and digits (at least one
  digit in all), then the exponent part.
\<close>

definition parse_number :: "string \<Rightarrow> rat option" where
  "parse_number s =
     (let ip = takeWhile isdigit s;
          r1 = dropWhile isdigit s;
          fp = (case r1 of [] \<Rightarrow> [] | c # t \<Rightarrow> if c = CHR ''.'' then takeWhile isdigit t else []);
          r2 = (case r1 of [] \<Rightarrow> [] | c # t \<Rightarrow> if c = CHR ''.'' then dropWhile isdigit t else r1)
      in if ip = [] \<and> fp = [] then None
         else (case parse_exponent r2 of
                 None \<Rightarrow> None
               | Some e \<Rightarrow> Some (of_nat (digits_val (ip @ fp)) * pow10 (e - int (length fp)))))"

text \<open>
  The unsigned value: \<^verbatim>\<open>inf\<close>, \<^verbatim>\<open>infinity\<close> or \<^verbatim>\<open>nan\<close> in any case, or a number,
  rounded to binary64.
\<close>

definition parse_abs :: "string \<Rightarrow> pyfloat option" where
  "parse_abs s =
     (let l = map ascii_lower s
      in if l = ''inf'' \<or> l = ''infinity'' then Some PInf
         else if l = ''nan'' then Some NaN
         else map_option round64 (parse_number s))"

text \<open>
  The whitespace that \<^verbatim>\<open>float\<close> drops around its text: the code points 9..13, 32,
  133 and 160.  Unlike \<^verbatim>\<open>str.strip\<close> it keeps 28..31, which then make the text
  invalid.
\<close>

definition float_isspace :: "char \<Rightarrow> bool" where
  "float_isspace c =
     (let n = (of_char c :: nat) in (9 \<le> n \<and> n \<le> 13) \<or> n = 32 \<or> n = 133 \<or> n = 160)"

definition float_strip :: "string \<Rightarrow> string" where
  "float_strip s = rev (dropWhile float_isspace (rev (dropWhile float_isspace s)))"

text \<open>
  \<^verbatim>\<open>float(s)\<close> for a string: surrounding whitespace is dropped, underscores are
  checked and removed, then an optional sign and the unsigned value must make up the
  whole text; anything else raises \<^verbatim>\<open>ValueError\<close>.
\<close>

definition py_float :: "string \<Rightarrow> error + pyfloat" where
  "py_float s =
     (let t = float_strip s
      in if \<not> underscores_ok (CHR 0x00) t then Inl ValueError
         else
           (let u = filter (\<lambda>c. c \<noteq> CHR ''_'') t;
                r = (case u of
                       [] \<Rightarrow> None
                     | c # v \<Rightarrow>
                         if c = CHR ''-'' then map_option fneg (parse_abs v)
                         else if c = CHR ''+'' then parse_abs v
                         else parse_abs u)
            in (case r of None \<Rightarrow> Inl ValueError | Some x \<Rightarrow> Inr x)))"

section \<open>\<^verbatim>\<open>clean_amount\<close>\<close>

definition clean_amount :: "pyval \<Rightarrow> error + pyfloat" where
  "clean_amount x0 =
     (let x = strip (replace_comma (py_str x0))
      in if startswith x ''('' \<and> endswith x '')'' then
           (case py_float (slice_1_m1 x) of Inl e \<Rightarrow> Inl e | Inr v \<Rightarrow> Inr (fneg v))
         else if x \<noteq> [] \<and> x \<noteq> ''None'' then py_float x
         else Inr (Fin 0))"


section \<open>Table extraction\<close>

text \<open>
  \<^verbatim>\<open>page.extract_table()\<close> gives \<^verbatim>\<open>None\<close> or a list of rows, each row a list of
  cells.  The script appends one dictionary per accepted row to the global list
  \<^verbatim>\<open>rows\<close>; the two loops pass that list along.
\<close>

record raw_row =
  raw_Date :: pyval
  raw_Particulars :: pyval
  raw_Withdrawals :: pyval
  raw_Deposits :: pyval
  raw_Balance :: pyval

definition row_dict :: "pyval list \<Rightarrow> raw_row" where
  "row_dict row =
     \<lparr>raw_Date = row ! 0, raw_Particulars = row ! 2, raw_Withdrawals = row ! 6,
      raw_Deposits = row ! 7, raw_Balance = row ! 8\<rparr>"

text \<open>\<^verbatim>\<open>for row in table[1:]\<close>; the indices 0..8 are read only when \<^verbatim>\<open>len(row) >= 9\<close>.\<close>

fun table_loop :: "pyval list list \<Rightarrow> raw_row list \<Rightarrow> raw_row list" where
  "table_loop [] rows = rows"
| "table_loop (row # rest) rows =
     (if length row < 9 then table_loop rest rows
      else table_loop rest (rows @ [row_dict row]))"

text \<open>\<^verbatim>\<open>for page in pdf.pages\<close>; \<^verbatim>\<open>not table\<close> holds for \<^verbatim>\<open>None\<close> and for the empty list.\<close>

fun page_loop :: "pyval list list option list \<Rightarrow> raw_row list \<Rightarrow> raw_row list" where
  "page_loop [] rows = rows"
| "page_loop (table # pages) rows =
     (case table of
        None \<Rightarrow> page_loop pages rows
      | Some t \<Rightarrow>
          if t = [] then page_loop pages rows
          else page_loop pages (table_loop (drop 1 t) rows))"

definition extract_rows :: "pyval list list option list \<Rightarrow> raw_row list" where
  "extract_rows pages = page_loop pages []"

section \<open>Dates\<close>

text \<open>
  A parsed date is a timestamp; \<^verbatim>\<open>NaT\<close> is \<open>None\<close>.  Timestamps are compared by
  year, month, day and time of day.
\<close>

datatype month =
  January | February | March | April | May | June
  | July | August | September | October | November | December

record timestamp =
  year :: nat
  mon :: month
  day :: nat
  tod :: nat

fun month_num :: "month \<Rightarrow> nat" where
  "month_num January = 1"
| "month_num February = 2"
| "month_num March = 3"
| "month_num April = 4"
| "month_num May = 5"
| "month_num June = 6"
| "month_num July = 7"
| "month_num August = 8"
| "month_num September = 9"
| "month_num October = 10"
| "month_num November = 11"
| "month_num December = 12"

fun month_name :: "month \<Rightarrow> string" where
  "month_name January = ''January''"
| "month_name February = ''February''"
| "month_name March = ''March''"
| "month_name April = ''April''"
| "month_name May = ''May''"
| "month_name June = ''June''"
| "month_name July = ''July''"
| "month_name August = ''August''"
| "month_name September = ''September''"
| "month_name October = ''October''"
| "month_name November = ''November''"
| "month_name December = ''December''"

definition ts_key :: "timestamp \<Rightarrow> nat \<times> nat \<times> nat \<times> nat" where
  "ts_key t = (year t, month_num (mon t), day t, tod t)"

definition digit_char :: "nat \<Rightarrow> char" where
  "digit_char n = char_of (48 + n)"

fun dec_str :: "nat \<Rightarrow> string" where
  "dec_str n = (if n < 10 then [digit_char n] else dec_str (n div 10) @ [digit_char (n mod 10)])"

declare dec_str.simps [simp del]

text \<open>\<^verbatim>\<open>strftime("%B %Y")\<close>: the full month name, a space, the year.\<close>

definition strftime_BY :: "timestamp \<Rightarrow> string" where
  "strftime_BY t = month_name (mon t) @ '' '' @ dec_str (year t)"

text \<open>
  \<^verbatim>\<open>pd.to_datetime(col, dayfirst=True, errors="coerce")\<close> works on a whole column: the
  library may infer a format from the column and then reads every cell with it, and
  a cell it cannot read becomes \<^verbatim>\<open>NaT\<close>.  The library's reader is the parameter
  \<open>parse\<close>, given the column and the cell.
\<close>

definition to_datetime ::
  "(pyval list \<Rightarrow> pyval \<Rightarrow> timestamp option) \<Rightarrow> pyval list \<Rightarrow> timestamp option list" where
  "to_datetime parse col = map (parse col) col"

text \<open>
  One reader for the scenarios below: day-first \<^verbatim>\<open>D/M/YYYY\<close> with a valid calendar
  date, midnight; every other cell is \<^verbatim>\<open>NaT\<close>.
\<close>

fun split_on :: "char \<Rightarrow> string \<Rightarrow> string list" where
  "split_on sep [] = [[]]"
| "split_on sep (c # cs) =
     (if c = sep then [] # split_on sep cs
      else (case split_on sep cs of [] \<Rightarrow> [[c]] | p # ps \<Rightarrow> (c # p) # ps))"

definition month_of_num :: "nat \<Rightarrow> month option" where
  "month_of_num n =
     (if n = 1 then Some January else if n = 2 then Some February
      else if n = 3 then Some March else if n = 4 then Some April
      else if n = 5 then Some May else if n = 6 then Some June
      else if n = 7 then Some July else if n = 8 then Some August
      else if n = 9 then Some September else if n = 10 then Some October
      else if n = 11 then Some November else if n = 12 then Some December
      else None)"

definition is_leap :: "nat \<Rightarrow> bool" where
  "is_leap y = (y mod 4 = 0 \<and> (y mod 100 \<noteq> 0 \<or> y mod 400 = 0))"

fun days_in_month :: "nat \<Rightarrow> month \<Rightarrow> nat" where
  "days_in_month y February = (if is_leap y then 29 else 28)"
| "days_in_month y April = 30"
| "days_in_month y June = 30"
| "days_in_month y September = 30"
| "days_in_month y November = 30"
| "days_in_month y m = 31"

definition all_digits :: "string \<Rightarrow> bool" where
  "all_digits s = (s \<noteq> [] \<and> list_all isdigit s)"

definition dayfirst_parse :: "pyval list \<Rightarrow> pyval \<Rightarrow> timestamp option" where
  "dayfirst_parse col cell =
     (case cell of
        PStr s \<Rightarrow>
          (case split_on (CHR ''/'') s of
             [d, m, y] \<Rightarrow>
               if all_digits d \<and> length d \<le> 2 \<and> all_digits m \<and> length m \<le> 2
                  \<and> all_digits y \<and> length y = 4
               then (case month_of_num (digits_val m) of
                       None \<Rightarrow> None
                     | Some mm \<Rightarrow>
                         if 1 \<le> digits_val d \<and> digits_val d \<le> days_in_month (digits_val y) mm
                         then Some \<lparr>year = digits_val y, mon = mm, day = digits_val d, tod = 0\<rparr>
                         else None)
               else None
           | _ \<Rightarrow> None)
      | _ \<Rightarrow> None)"

section \<open>\<^verbatim>\<open>categorize\<close>\<close>

text \<open>\<^verbatim>\<open>str.lower\<close>, one character at a time, on the code points 0..255.\<close>

definition lower_char :: "char \<Rightarrow> char" where
  "lower_char c =
     (let n = (of_char c :: nat)
      in if (65 \<le> n \<and> n \<le> 90) \<or> (192 \<le> n \<and> n \<le> 222 \<and> n \<noteq> 215)
         then char_of (n + 32) else c)"

definition lower :: "string \<Rightarrow> string" where
  "lower s = map lower_char s"

text \<open>\<^verbatim>\<open>kw in d\<close> for strings: \<open>kw\<close> occurs in \<open>d\<close> as a contiguous block.\<close>

fun py_in :: "string \<Rightarrow> string \<Rightarrow> bool" where
  "py_in kw [] = (kw = [])"
| "py_in kw (c # cs) = (startswith (c # cs) kw \<or> py_in kw cs)"

definition categorize :: "pyval \<Rightarrow> string" where
  "categorize desc =
     (let d = lower (py_str desc)
      in if py_in ''loan'' d then ''Loan''
         else if py_in ''salary'' d then ''Salary''
         else if py_in ''neft'' d then ''NEFT''
         else if py_in ''upi'' d then ''UPI''
         else if py_in ''transfer'' d \<or> py_in ''tfr'' d then ''Transfer''
         else ''Others'')"






section \<open>Sums of floats\<close>

text \<open>
  Addition of floats: the exact sum of two finite floats, rounded to binary64; a
  NaN operand gives NaN, and so do two infinities of opposite sign.
\<close>

fun fadd :: "pyfloat \<Rightarrow> pyfloat \<Rightarrow> pyfloat" where
  "fadd (Fin a) (Fin b) = round64 (a + b)"
| "fadd NaN _ = NaN"
| "fadd _ NaN = NaN"
| "fadd PInf NInf = NaN"
| "fadd NInf PInf = NaN"
| "fadd PInf _ = PInf"
| "fadd _ PInf = PInf"
| "fadd NInf _ = NInf"
| "fadd _ NInf = NInf"

definition fsub :: "pyfloat \<Rightarrow> pyfloat \<Rightarrow> pyfloat" where
  "fsub a b = fadd a (fneg b)"

text \<open>
  \<^verbatim>\<open>Series.sum()\<close> and the sum of a group leave NaN entries out (\<^verbatim>\<open>skipna\<close>) and
  add the rest, starting from zero.  The order in which the library adds is its own;
  here the entries are added from the left.  Where every addition is exact, as for
  whole amounts of moderate size, every order gives the same sum.
\<close>

definition series_sum :: "pyfloat list \<Rightarrow> pyfloat" where
  "series_sum xs = foldl fadd (Fin 0) (filter (\<lambda>v. v \<noteq> NaN) xs)"

section \<open>The report\<close>

record txn =
  Date :: "timestamp option"
  Particulars :: pyval
  Withdrawals :: pyfloat
  Deposits :: pyfloat
  Balance :: pyfloat

record txn_month = txn +
  Month :: "string option"

record txn_cat = txn_month +
  Category :: string

text \<open>\<^verbatim>\<open>col.apply(clean_amount)\<close>: cell by cell, the first exception ends it.\<close>

fun apply_clean :: "pyval list \<Rightarrow> error + pyfloat list" where
  "apply_clean [] = Inr []"
| "apply_clean (x # xs) =
     (case clean_amount x of
        Inl e \<Rightarrow> Inl e
      | Inr v \<Rightarrow> (case apply_clean xs of Inl e \<Rightarrow> Inl e | Inr vs \<Rightarrow> Inr (v # vs)))"

text \<open>
  The frame after the three numeric columns are cleaned (in the order Withdrawals,
  Deposits, Balance) and the Date column is converted.
\<close>

definition clean_frame ::
  "(pyval list \<Rightarrow> pyval \<Rightarrow> timestamp option) \<Rightarrow> raw_row list \<Rightarrow> error + txn list" where
  "clean_frame parse rows =
     (case apply_clean (map raw_Withdrawals rows) of
        Inl e \<Rightarrow> Inl e
      | Inr ws \<Rightarrow>
     (case apply_clean (map raw_Deposits rows) of
        Inl e \<Rightarrow> Inl e
      | Inr ds \<Rightarrow>
     (case apply_clean (map raw_Balance rows) of
        Inl e \<Rightarrow> Inl e
      | Inr bs \<Rightarrow>
          Inr (map (\<lambda>(r, d, w, dp, b).
                      \<lparr>Date = d, Particulars = raw_Particulars r, Withdrawals = w,
                       Deposits = dp, Balance = b\<rparr>)
                 (zip rows (zip (to_datetime parse (map raw_Date rows))
                   (zip ws (zip ds bs))))))))"

definition date_key :: "timestamp option \<Rightarrow> nat \<times> nat \<times> nat \<times> nat" where
  "date_key d = (case d of None \<Rightarrow> (0, 0, 0, 0) | Some t \<Rightarrow> ts_key t)"

text \<open>
  \<^verbatim>\<open>df.sort_values("Date")\<close>: ascending, \<^verbatim>\<open>NaT\<close> rows last (\<^verbatim>\<open>na_position="last"\<close>)
  in their former order.  Rows of equal date are kept in their former order here;
  the library's default sort does not promise that.
\<close>

definition sort_values :: "('a txn_scheme) list \<Rightarrow> ('a txn_scheme) list" where
  "sort_values xs =
     sort_key (\<lambda>t. date_key (Date t)) (filter (\<lambda>t. Date t \<noteq> None) xs)
     @ filter (\<lambda>t. Date t = None) xs"

definition add_month :: "txn \<Rightarrow> txn_month" where
  "add_month t =
     \<lparr>Date = Date t, Particulars = Particulars t, Withdrawals = Withdrawals t,
      Deposits = Deposits t, Balance = Balance t,
      Month = map_option strftime_BY (Date t)\<rparr>"

definition add_category :: "txn_month \<Rightarrow> txn_cat" where
  "add_category t =
     \<lparr>Date = Date t, Particulars = Particulars t, Withdrawals = Withdrawals t,
      Deposits = Deposits t, Balance = Balance t, Month = Month t,
      Category = categorize (Particulars t)\<rparr>"

text \<open>
  \<^verbatim>\<open>groupby(key)\<close>: one group per distinct key in ascending key order; a row whose
  key is missing (NaN) belongs to no group (\<^verbatim>\<open>dropna=True\<close>).
\<close>

definition group_keys :: "string option list \<Rightarrow> string list" where
  "group_keys ks = sort (remdups (List.map_filter id ks))"

definition monthly_of :: "('a txn_month_scheme) list \<Rightarrow> (string \<times> pyfloat \<times> pyfloat) list" where
  "monthly_of d =
     map (\<lambda>k. (k,
                series_sum (map Withdrawals (filter (\<lambda>t. Month t = Some k) d)),
                series_sum (map Deposits (filter (\<lambda>t. Month t = Some k) d))))
       (group_keys (map Month d))"

definition category_summary_of :: "txn_cat list \<Rightarrow> (string \<times> pyfloat) list" where
  "category_summary_of d =
     map (\<lambda>k. (k, series_sum (map Withdrawals (filter (\<lambda>t. Category t = k) d))))
       (group_keys (map (\<lambda>t. Some (Category t)) d))"

record report =
  df :: "txn_cat list"
  total_debit :: pyfloat
  total_credit :: pyfloat
  net_cash :: pyfloat
  monthly :: "(string \<times> pyfloat \<times> pyfloat) list"
  category_summary :: "(string \<times> pyfloat) list"

text \<open>
  The script from the extracted pages on.  \<open>Inr None\<close> is the branch without rows
  (no report), \<open>Inl ValueError\<close> the exception out of \<^verbatim>\<open>clean_amount\<close>.
\<close>

definition bank_report ::
  "(pyval list \<Rightarrow> pyval \<Rightarrow> timestamp option) \<Rightarrow> pyval list list option list
     \<Rightarrow> error + report option" where
  "bank_report parse pages =
     (let rows = extract_rows pages
      in if rows = [] then Inr None
         else
           (case clean_frame parse rows of
              Inl e \<Rightarrow> Inl e
            | Inr d0 \<Rightarrow>
                (let d1 = sort_values d0;
                     debit = series_sum (map Withdrawals d1);
                     credit = series_sum (map Deposits d1);
                     d2 = map add_month d1;
                     d3 = map add_category d2
                 in Inr (Some \<lparr>df = d3, total_debit = debit, total_credit = credit,
                                net_cash = fsub credit debit,
                                monthly = monthly_of d2,
                                category_summary = category_summary_of d3\<rparr>))))"


section \<open>Notions of the specification\<close>

text \<open>
  The data rows of a page, in the specification's words: the rows of the page's table
  after the header row; a page without a table has none.
\<close>

definition data_rows :: "pyval list list option \<Rightarrow> pyval list list" where
  "data_rows table = (case table of None \<Rightarrow> [] | Some t \<Rightarrow> drop 1 t)"

text \<open>
  Case-insensitive substring search, in the specification's words: some contiguous
  part of the text equals the keyword up to letter case.
\<close>

definition ci_substring :: "string \<Rightarrow> string \<Rightarrow> bool" where
  "ci_substring kw s = (\<exists>ps w ss. s = ps @ w @ ss \<and> lower w = lower kw)"

text \<open>
  The amount text after the thousands separators and the surrounding whitespace are
  stripped.
\<close>

definition cleaned_text :: "pyval \<Rightarrow> string" where
  "cleaned_text x = strip (replace_comma (py_str x))"

text \<open>
  Valid numeric notation is what the numeric parser accepts; valid accounting
  notation is a valid number wrapped in one pair of parentheses.
\<close>

definition valid_numeric :: "string \<Rightarrow> bool" where
  "valid_numeric s = (\<exists>v. py_float s = Inr v)"

definition valid_accounting :: "string \<Rightarrow> bool" where
  "valid_accounting s = (\<exists>t. s = ''('' @ t @ '')'' \<and> valid_numeric t)"

text \<open>
  \<^verbatim>\<open>v >= 0\<close> on floats; it is false for NaN.
\<close>

definition fnonneg :: "pyfloat \<Rightarrow> bool" where
  "fnonneg v = (case v of Fin r \<Rightarrow> 0 \<le> r | PInf \<Rightarrow> True | NInf \<Rightarrow> False | NaN \<Rightarrow> False)"

text \<open>
  An amount cell is unsigned when its cleaned text is neither wrapped in parentheses
  nor starts with a minus sign.
\<close>

definition unsigned_text :: "pyval \<Rightarrow> bool" where
  "unsigned_text c =
     (let s = cleaned_text c
      in \<not> (startswith s ''('' \<and> endswith s '')'') \<and> \<not> startswith s ''-'')"

text \<open>
  The decimal number that the digits \<open>ip\<close>, a point and the digits \<open>fp\<close> denote.
\<close>

definition decimal_value :: "string \<Rightarrow> string \<Rightarrow> rat" where
  "decimal_value ip fp = of_nat (digits_val ip) + of_nat (digits_val fp) / 10 ^ length fp"

text \<open>
  \<^verbatim>\<open>v <= 0\<close> on floats; it is false for NaN.
\<close>

definition fnonpos :: "pyfloat \<Rightarrow> bool" where
  "fnonpos v = (case v of Fin r \<Rightarrow> r \<le> 0 | PInf \<Rightarrow> False | NInf \<Rightarrow> True | NaN \<Rightarrow> False)"

text \<open>
  The text \<^verbatim>\<open>nan\<close> or \<^verbatim>\<open>+nan\<close>, in any letter case.
\<close>

definition nan_text :: "string \<Rightarrow> bool" where
  "nan_text s = (map ascii_lower s = ''nan'' \<or> map ascii_lower s = ''+nan'')"

text \<open>
  How the sign of an amount cell is carried into its normalized amount \<open>v\<close>: an
  unsigned cell gives a non-negative amount (NaN only for the text nan); a cell
  wrapped in parentheses gives the negation of the value of its interior; a cell
  that starts with a minus sign gives an amount that is at most zero (NaN only for
  the text -nan).
\<close>

definition sign_carried :: "pyval \<Rightarrow> pyfloat \<Rightarrow> bool" where
  "sign_carried c v =
     ((unsigned_text c \<longrightarrow> fnonneg v \<or> (v = NaN \<and> nan_text (cleaned_text c)))
      \<and> (\<forall>t. cleaned_text c = ''('' @ t @ '')'' \<longrightarrow> (\<exists>u. py_float t = Inr u \<and> v = fneg u))
      \<and> (\<forall>t. cleaned_text c = ''-'' @ t \<longrightarrow>
            fnonpos v \<or> (v = NaN \<and> map ascii_lower t = ''nan'')))"

text \<open>
  Amounts on which float addition is exact: whole numbers whose absolute values
  total less than \<open>2 ^ 53\<close>.
\<close>

definition ival :: "pyfloat \<Rightarrow> int" where
  "ival v = (case v of Fin r \<Rightarrow> \<lfloor>r\<rfloor> | _ \<Rightarrow> 0)"

definition is_whole :: "pyfloat \<Rightarrow> bool" where
  "is_whole v = (case v of Fin r \<Rightarrow> r = of_int \<lfloor>r\<rfloor> | _ \<Rightarrow> False)"


section \<open>Scenarios\<close>

text \<open>
  The two rows of the specification's end-to-end scenario, a header row, and what
  the script computes from them.
\<close>

definition header_row :: "pyval list" where
  "header_row = [PStr ''Date'', PStr ''Ref'', PStr ''Particulars'', PStr ''a'', PStr ''b'',
               PStr ''c'', PStr ''Withdrawals'', PStr ''Deposits'', PStr ''Balance'']"

definition salary_row :: "pyval list" where
  "salary_row = [PStr ''01/02/2023'', PStr '''', PStr ''Salary Credit'', PStr '''', PStr '''',
               PStr '''', PStr ''0'', PStr ''50,000.00'', PStr ''50,000.00'']"

definition loan_row :: "pyval list" where
  "loan_row = [PStr ''05/02/2023'', PStr '''', PStr ''Loan EMI'', PStr '''', PStr '''',
               PStr '''', PStr ''(5,000.00)'', PStr ''0'', PStr ''45,000.00'']"

definition scenario_frame :: "txn list" where
  "scenario_frame =
     [\<lparr>Date = Some \<lparr>year = 2023, mon = February, day = 1, tod = 0\<rparr>,
           Particulars = PStr ''Salary Credit'', Withdrawals = Fin 0,
           Deposits = Fin 50000, Balance = Fin 50000\<rparr>,
          \<lparr>Date = Some \<lparr>year = 2023, mon = February, day = 5, tod = 0\<rparr>,
           Particulars = PStr ''Loan EMI'', Withdrawals = Fin (- 5000),
           Deposits = Fin 0, Balance = Fin 45000\<rparr>]"

definition scenario_report :: report where
  "scenario_report =
       \<lparr>df = [\<lparr>Date = Some \<lparr>year = 2023, mon = February, day = 1, tod = 0\<rparr>,
                 Particulars = PStr ''Salary Credit'', Withdrawals = Fin 0,
                 Deposits = Fin 50000, Balance = Fin 50000,
                 Month = Some ''February 2023'', Category = ''Salary''\<rparr>,
              \<lparr>Date = Some \<lparr>year = 2023, mon = February, day = 5, tod = 0\<rparr>,
                 Particulars = PStr ''Loan EMI'',
                 Withdrawals = Fin (- 5000), Deposits = Fin 0,
                 Balance = Fin 45000, Month = Some ''February 2023'',
                 Category = ''Loan''\<rparr>],
          total_debit = Fin (- 5000), total_credit = Fin 50000,
          net_cash = Fin 55000,
          monthly = [(''February 2023'', Fin (- 5000), Fin 50000)],
          category_summary =
            [(''Loan'', Fin (- 5000)), (''Salary'', Fin 0)]\<rparr>"

text \<open>
  A statement with one row whose date cannot be read, between two rows out of date
  order, and what the script computes from it.
\<close>

definition mixed_pages :: "pyval list list option list" where
  "mixed_pages =
     [Some [header_row,
        [PStr ''05/02/2023'', PNone, PStr ''Loan EMI'', PNone, PNone, PNone,
         PStr ''200'', PStr ''0'', PStr ''800''],
        [PStr ''n/a'', PNone, PStr ''ATM cash'', PNone, PNone, PNone,
         PStr ''100'', PStr ''0'', PStr ''700''],
        [PStr ''01/02/2023'', PNone, PStr ''Salary'', PNone, PNone, PNone,
         PStr ''0'', PStr ''50'', PStr ''1,000'']]]"

definition mixed_report :: report where
  "mixed_report =
     \<lparr>df = [\<lparr>Date = Some \<lparr>year = 2023, mon = February, day = 1, tod = 0\<rparr>,
              Particulars = PStr ''Salary'', Withdrawals = Fin 0, Deposits = Fin 50,
              Balance = Fin 1000, Month = Some ''February 2023'', Category = ''Salary''\<rparr>,
            \<lparr>Date = Some \<lparr>year = 2023, mon = February, day = 5, tod = 0\<rparr>,
              Particulars = PStr ''Loan EMI'', Withdrawals = Fin 200, Deposits = Fin 0,
              Balance = Fin 800, Month = Some ''February 2023'', Category = ''Loan''\<rparr>,
            \<lparr>Date = None,
              Particulars = PStr ''ATM cash'', Withdrawals = Fin 100, Deposits = Fin 0,
              Balance = Fin 700, Month = None, Category = ''Others''\<rparr>],
       total_debit = Fin 300, total_credit = Fin 50, net_cash = Fin (- 250),
       monthly = [(''February 2023'', Fin 200, Fin 50)],
       category_summary = [(''Loan'', Fin 200), (''Others'', Fin 100), (''Salary'', Fin 0)]\<rparr>"



section \<open>Extraction\<close>

lemma table_loop_eq:
  "table_loop t rows = rows @ map row_dict (filter (\<lambda>row. 9 \<le> length row) t)"
  by (induction t arbitrary: rows) (auto simp: not_less)

lemma page_loop_eq:
  "page_loop pages rows =
     rows @ map row_dict (filter (\<lambda>row. 9 \<le> length row) (concat (map data_rows pages)))"
proof (induction pages arbitrary: rows)
  case Nil
  then show ?case by simp
next
  case (Cons table pages)
  show ?case
  proof (cases table)
    case None
    then show ?thesis by (simp add: Cons.IH data_rows_def)
  next
    case (Some t)
    then show ?thesis by (simp add: Cons.IH data_rows_def table_loop_eq del: One_nat_def)
  qed
qed

text \<open>
  Claim C8.  On every page the header row of the table is left out and every row
  with fewer than 9 cells is skipped: the extracted rows are exactly the data rows
  with at least 9 cells, in page and row order.  The extraction has no error result,
  and every extracted row comes from a data row with at least 9 cells.
\<close>

theorem extract_rows_skips_short_rows:
  "extract_rows pages =
     map row_dict (filter (\<lambda>row. 9 \<le> length row) (concat (map data_rows pages)))
   \<and> (\<forall>r \<in> set (extract_rows pages).
        \<exists>table \<in> set pages. \<exists>row \<in> set (data_rows table). 9 \<le> length row \<and> r = row_dict row)"
  by (auto simp: extract_rows_def page_loop_eq)

theorem extract_rows_skips_short_rows_witness:
  "extract_rows
     [None, Some [],
      Some [[PStr ''Date'', PStr ''x'', PStr ''Particulars'', PStr ''x'', PStr ''x'',
             PStr ''x'', PStr ''W'', PStr ''D'', PStr ''B''],
            [PStr ''01/02/2023'', PStr ''only two cells''],
            [PStr ''01/02/2023'', PNone, PStr ''Salary'', PNone, PNone, PNone,
             PStr ''0'', PStr ''10'', PStr ''10'', PStr ''extra'']]]
   = [\<lparr>raw_Date = PStr ''01/02/2023'', raw_Particulars = PStr ''Salary'',
       raw_Withdrawals = PStr ''0'', raw_Deposits = PStr ''10'', raw_Balance = PStr ''10''\<rparr>]"
  using extract_rows_skips_short_rows
    [of "[None, Some [],
      Some [[PStr ''Date'', PStr ''x'', PStr ''Particulars'', PStr ''x'', PStr ''x'',
             PStr ''x'', PStr ''W'', PStr ''D'', PStr ''B''],
            [PStr ''01/02/2023'', PStr ''only two cells''],
            [PStr ''01/02/2023'', PNone, PStr ''Salary'', PNone, PNone, PNone,
             PStr ''0'', PStr ''10'', PStr ''10'', PStr ''extra'']]]"]
  by (simp add: data_rows_def row_dict_def)

section \<open>The classifier\<close>

lemma startswith_iff: "startswith s p \<longleftrightarrow> (\<exists>ss. s = p @ ss)"
  unfolding startswith_def
  by (metis append_eq_conv_conj append_take_drop_id)

lemma py_in_iff: "py_in kw d \<longleftrightarrow> (\<exists>ps ss. d = ps @ kw @ ss)"
proof (induction d)
  case Nil
  then show ?case by auto
next
  case (Cons c cs)
  show ?case
  proof
    assume "py_in kw (c # cs)"
    then consider "startswith (c # cs) kw" | "py_in kw cs" by auto
    then show "\<exists>ps ss. c # cs = ps @ kw @ ss"
    proof cases
      case 1
      then obtain ss where "c # cs = kw @ ss" by (auto simp: startswith_iff)
      then have "c # cs = [] @ kw @ ss" by simp
      then show ?thesis by blast
    next
      case 2
      then obtain ps ss where "cs = ps @ kw @ ss" using Cons.IH by auto
      then have "c # cs = (c # ps) @ kw @ ss" by simp
      then show ?thesis by blast
    qed
  next
    assume "\<exists>ps ss. c # cs = ps @ kw @ ss"
    then obtain ps ss where e: "c # cs = ps @ kw @ ss" by auto
    show "py_in kw (c # cs)"
    proof (cases ps)
      case Nil
      with e have "startswith (c # cs) kw" by (auto simp: startswith_iff)
      then show ?thesis by simp
    next
      case (Cons p ps')
      with e have "cs = ps' @ kw @ ss" by simp
      then have "py_in kw cs" using Cons.IH by blast
      then show ?thesis by simp
    qed
  qed
qed

lemma map_eq_appendD:
  assumes "map f s = a @ b"
  shows "map f (take (length a) s) = a" and "map f (drop (length a) s) = b"
proof -
  have "take (length a) (map f s) = a" "drop (length a) (map f s) = b"
    using assms by simp_all
  then show "map f (take (length a) s) = a" and "map f (drop (length a) s) = b"
    by (simp_all add: take_map drop_map)
qed

lemma py_in_lower: "py_in (lower kw) (lower s) \<longleftrightarrow> ci_substring kw s"
proof
  assume "py_in (lower kw) (lower s)"
  then obtain ps ss where e: "map lower_char s = ps @ (map lower_char kw @ ss)"
    by (auto simp: py_in_iff lower_def)
  define us where "us = take (length ps) s"
  define vs where "vs = drop (length ps) s"
  have s: "s = us @ vs" by (simp add: us_def vs_def)
  have v: "map lower_char vs = map lower_char kw @ ss"
    unfolding vs_def using map_eq_appendD(2) [OF e] .
  define w where "w = take (length (map lower_char kw)) vs"
  define ws where "ws = drop (length (map lower_char kw)) vs"
  have "vs = w @ ws" by (simp add: w_def ws_def)
  moreover have "map lower_char w = map lower_char kw"
    unfolding w_def using map_eq_appendD(1) [OF v] .
  ultimately have "s = us @ w @ ws \<and> lower w = lower kw" using s by (simp add: lower_def)
  then show "ci_substring kw s" unfolding ci_substring_def by blast
next
  assume "ci_substring kw s"
  then obtain ps w ss where "s = ps @ w @ ss" and "lower w = lower kw"
    unfolding ci_substring_def by blast
  then have "lower s = lower ps @ lower kw @ lower ss" by (simp add: lower_def)
  then show "py_in (lower kw) (lower s)" unfolding py_in_iff by blast
qed

lemma lower_lit:
  "lower ''loan'' = ''loan''" "lower ''salary'' = ''salary''" "lower ''neft'' = ''neft''"
  "lower ''upi'' = ''upi''" "lower ''transfer'' = ''transfer''" "lower ''tfr'' = ''tfr''"
  by (simp_all add: lower_def lower_char_def)

lemma categorize_ci:
  "categorize (PStr p) =
     (if ci_substring ''loan'' p then ''Loan''
      else if ci_substring ''salary'' p then ''Salary''
      else if ci_substring ''neft'' p then ''NEFT''
      else if ci_substring ''upi'' p then ''UPI''
      else if ci_substring ''transfer'' p \<or> ci_substring ''tfr'' p then ''Transfer''
      else ''Others'')"
  unfolding py_in_lower [symmetric] lower_lit categorize_def Let_def by simp

lemma categorize_examples:
  "categorize (PStr ''Salary Transfer to XYZ'') = ''Salary''"
  "categorize (PStr ''NEFT UPI payment'') = ''NEFT''"
  "categorize (PStr ''Grocery store'') = ''Others''"
  "categorize PNone = ''Others''"
  by (simp_all add: categorize_def lower_def lower_char_def startswith_def char_of_eq_iff)

text \<open>
  Claim C4.  For every particulars text, \<open>categorize\<close> returns the label of the
  first rule that matches by case-insensitive substring search, in the order loan,
  salary, neft, upi, transfer or tfr, and Others when none matches; so a text that
  matches several keywords gets the earliest rule's label, as in the three examples.
\<close>

theorem categorize_first_match_wins:
  "categorize (PStr p) =
     (if ci_substring ''loan'' p then ''Loan''
      else if ci_substring ''salary'' p then ''Salary''
      else if ci_substring ''neft'' p then ''NEFT''
      else if ci_substring ''upi'' p then ''UPI''
      else if ci_substring ''transfer'' p \<or> ci_substring ''tfr'' p then ''Transfer''
      else ''Others'')
   \<and> categorize (PStr ''Salary Transfer to XYZ'') = ''Salary''
   \<and> categorize (PStr ''NEFT UPI payment'') = ''NEFT''
   \<and> categorize (PStr ''Grocery store'') = ''Others''"
  using categorize_ci [of p] categorize_examples by simp

theorem categorize_first_match_wins_witness:
  "ci_substring ''loan'' ''Tfr: home LoAn, salary'' \<and>
   categorize (PStr ''Tfr: home LoAn, salary'') = ''Loan''"
proof -
  have "''Tfr: home LoAn, salary'' = ''Tfr: home '' @ ''LoAn'' @ '', salary''
        \<and> lower ''LoAn'' = lower ''loan''"
    by (simp add: lower_def lower_char_def char_of_eq_iff)
  then have m: "ci_substring ''loan'' ''Tfr: home LoAn, salary''"
    unfolding ci_substring_def by blast
  with categorize_first_match_wins [of "''Tfr: home LoAn, salary''"] show ?thesis
    by simp
qed






section \<open>Rounding to binary64\<close>

lemma scan_exp_range: "- 1022 \<le> scan_exp a n \<and> scan_exp a n \<le> int n - 1022"
  by (induction n) auto

lemma scan_exp_lower: "- 1022 < scan_exp a n \<Longrightarrow> 2 powi (scan_exp a n) \<le> a"
  by (induction n) (auto split: if_splits)

lemma round_half_even_of_int: "round_half_even (of_int n) = n"
  by (simp add: round_half_even_def)

lemma round_half_even_nonneg: "0 \<le> x \<Longrightarrow> 0 \<le> round_half_even x"
  by (auto simp: round_half_even_def Let_def intro: add_nonneg_nonneg)

text \<open>
  A rational \<open>m / 2 ^ k\<close> with \<open>\<bar>m\<bar> < 2 ^ 53\<close> and \<open>k \<le> 1074\<close> is a binary64 number:
  rounding leaves it as it is.
\<close>

lemma round64_exact:
  assumes m: "\<bar>m\<bar> < 2 ^ 53" and k: "k \<le> 1074"
  shows "round64 (of_int m / 2 ^ k) = Fin (of_int m / 2 ^ k)"
proof -
  define q :: rat where "q = of_int m / 2 ^ k"
  define a :: rat where "a = \<bar>q\<bar>"
  define e where "e = scan_exp a 2045"
  define j where "j = 52 - e - int k"
  have a: "a = of_int \<bar>m\<bar> / 2 ^ k" by (simp add: a_def q_def)
  have a53: "a < 2 powi (53 - int k)"
  proof -
    have "(of_int \<bar>m\<bar> :: rat) < 2 ^ 53" using m by (metis of_int_less_numeral_power_cancel_iff)
    then have "a < 2 ^ 53 / 2 ^ k" unfolding a by (simp add: divide_strict_right_mono)
    also have "(2 ^ 53 / 2 ^ k :: rat) = 2 powi (53 - int k)"
      by (simp add: power_int_diff)
    finally show ?thesis .
  qed
  have j: "0 \<le> j"
  proof (cases "- 1022 < e")
    case True
    then have "2 powi e \<le> a" unfolding e_def by (rule scan_exp_lower)
    with a53 have "(2::rat) powi e < 2 powi (53 - int k)" by simp
    then have "e < 53 - int k"
      using power_int_increasing [of "53 - int k" e "2::rat"] by (cases "e < 53 - int k") auto
    then show ?thesis by (simp add: j_def)
  next
    case False
    with scan_exp_range [of a 2045] have "e = - 1022" by (simp add: e_def)
    with k show ?thesis by (simp add: j_def)
  qed
  have x: "a / 2 powi (e - 52) = of_int (\<bar>m\<bar> * 2 ^ nat j)"
  proof -
    have "a / 2 powi (e - 52) = of_int \<bar>m\<bar> * (2 powi (- int k) * 2 powi (52 - e))"
      unfolding a by (simp add: power_int_minus field_simps power_int_diff)
    also have "(2::rat) powi (- int k) * 2 powi (52 - e) = 2 powi j"
      by (simp add: j_def power_int_add [symmetric] algebra_simps)
    also have "(2::rat) powi j = 2 ^ nat j" using j by (simp add: power_int_def)
    finally show ?thesis by simp
  qed
  have r: "of_int (round_half_even (a / 2 powi (e - 52))) * 2 powi (e - 52) = a"
    unfolding x round_half_even_of_int unfolding x [symmetric] by simp
  have small: "\<not> 2 powi 1024 \<le> a"
  proof -
    have "a \<le> of_int \<bar>m\<bar>" unfolding a by (simp add: divide_le_eq mult_le_cancel_left1)
    moreover have "(of_int \<bar>m\<bar> :: rat) < 2 ^ 53" using m by (metis of_int_less_numeral_power_cancel_iff)
    moreover have "(2 ^ 53 :: rat) \<le> 2 powi 1024" by simp
    ultimately show ?thesis by linarith
  qed
  have "round64 q = Fin (if 0 < q then a else - a)"
    unfolding round64_def Let_def a_def [symmetric] e_def [symmetric] r using small by simp
  also have "(if 0 < q then a else - a) = q" by (simp add: a_def)
  finally show ?thesis unfolding q_def .
qed

lemma round64_int: "\<bar>m\<bar> < 2 ^ 53 \<Longrightarrow> round64 (of_int m) = Fin (of_int m)"
  using round64_exact [of m 0] by simp

lemma round64_zero: "round64 0 = Fin 0"
  using round64_int [of 0] by simp

lemma round64_minus: "round64 (- q) = fneg (round64 q)"
proof (cases "q = 0")
  case True
  then show ?thesis by (simp add: round64_zero)
next
  case False
  then have "(0 < - q) = (\<not> 0 < q)" by auto
  then show ?thesis by (simp add: round64_def Let_def)
qed

lemma round64_nonneg:
  assumes "0 \<le> q"
  shows "round64 q = PInf \<or> (\<exists>r. round64 q = Fin r \<and> 0 \<le> r)"
proof -
  define r :: rat where
    "r = of_int (round_half_even (\<bar>q\<bar> / 2 powi (scan_exp \<bar>q\<bar> 2045 - 52)))
           * 2 powi (scan_exp \<bar>q\<bar> 2045 - 52)"
  have "0 \<le> \<bar>q\<bar> / 2 powi (scan_exp \<bar>q\<bar> 2045 - 52)" by simp
  then have r0: "0 \<le> r"
    unfolding r_def by (intro mult_nonneg_nonneg) (simp_all add: round_half_even_nonneg)
  have z: "q = 0 \<Longrightarrow> r = 0"
    using round_half_even_of_int [of 0] by (simp add: r_def)
  have eq: "round64 q = (if 2 powi 1024 \<le> r then (if 0 < q then PInf else NInf)
                         else Fin (if 0 < q then r else - r))"
    unfolding round64_def Let_def r_def ..
  show ?thesis
  proof (cases "2 powi 1024 \<le> r")
    case True
    have "(0::rat) < 2 powi 1024" by (rule zero_less_power_int) simp
    with True have "r \<noteq> 0" by linarith
    with z assms have "0 < q" by (cases "q = 0") auto
    with True have "round64 q = PInf" by (simp only: eq if_True)
    then show ?thesis by blast
  next
    case False
    show ?thesis
    proof (cases "0 < q")
      case True
      with False have "round64 q = Fin r" by (simp only: eq if_True if_False)
      with r0 show ?thesis by blast
    next
      case nq: False
      with assms have "q = 0" by simp
      with z have "r = 0" by simp
      with False nq have "round64 q = Fin (- r)" by (simp only: eq if_False)
      with \<open>r = 0\<close> show ?thesis by simp
    qed
  qed
qed

lemma round64_not_NaN: "round64 q \<noteq> NaN"
  by (simp add: round64_def Let_def)





text \<open>Rules that evaluate the rounding of small numerals.\<close>

lemma round64_numeral:
  "round64 0 = Fin 0"
  "round64 1 = Fin 1"
  "numeral n < (9007199254740992 :: int) \<Longrightarrow> round64 (numeral n) = Fin (numeral n)"
  "numeral n < (9007199254740992 :: int) \<Longrightarrow> round64 (numeral n / 2) = Fin (numeral n / 2)"
  "numeral n < (9007199254740992 :: int) \<Longrightarrow> round64 (numeral n / 4) = Fin (numeral n / 4)"
proof -
  show "round64 0 = Fin 0" by (rule round64_zero)
  show "round64 1 = Fin 1" using round64_int [of 1] by simp
  assume n: "numeral n < (9007199254740992 :: int)"
  then have b: "\<bar>numeral n :: int\<bar> < 2 ^ 53" by simp
  show "round64 (numeral n) = Fin (numeral n)" using round64_int [OF b] by simp
  show "round64 (numeral n / 2) = Fin (numeral n / 2)" using round64_exact [OF b, of 1] by simp
  show "round64 (numeral n / 4) = Fin (numeral n / 4)" using round64_exact [OF b, of 2] by simp
qed

lemmas round64_eval = round64_numeral round64_minus



section \<open>Amount coercion\<close>

lemma rev_dropWhile_split: "v = rev (dropWhile P (rev v)) @ rev (takeWhile P (rev v))"
  by (metis rev_append rev_rev_ident takeWhile_dropWhile_id)

lemma strip_decomp:
  "u = takeWhile isspace u @ strip u @ rev (takeWhile isspace (rev (dropWhile isspace u)))"
proof -
  have "dropWhile isspace u =
          strip u @ rev (takeWhile isspace (rev (dropWhile isspace u)))"
    unfolding strip_def by (rule rev_dropWhile_split)
  moreover have "u = takeWhile isspace u @ dropWhile isspace u" by simp
  ultimately show ?thesis by metis
qed

lemma strip_last: "strip u \<noteq> [] \<Longrightarrow> \<not> isspace (last (strip u))"
  unfolding strip_def by (simp add: last_rev hd_dropWhile)

lemma strip_hd: "strip u \<noteq> [] \<Longrightarrow> \<not> isspace (hd (strip u))"
proof -
  assume ne: "strip u \<noteq> []"
  let ?v = "dropWhile isspace u"
  have v: "?v = strip u @ rev (takeWhile isspace (rev ?v))"
    using strip_decomp [of u] by (metis same_append_eq takeWhile_dropWhile_id)
  with ne have "hd ?v = hd (strip u)" by (metis hd_append2)
  moreover have "?v \<noteq> []" using v ne by (metis append_is_Nil_conv)
  ultimately show ?thesis using hd_dropWhile [of isspace u] by simp
qed

lemma strip_id: "s \<noteq> [] \<Longrightarrow> \<not> isspace (hd s) \<Longrightarrow> \<not> isspace (last s) \<Longrightarrow> strip s = s"
proof -
  assume a: "s \<noteq> []" "\<not> isspace (hd s)" "\<not> isspace (last s)"
  then have 1: "dropWhile isspace s = s" by (cases s) auto
  from a have "rev s \<noteq> []" "\<not> isspace (hd (rev s))" by (simp_all add: hd_rev)
  then have "dropWhile isspace (rev s) = rev s" by (cases "rev s") auto
  with 1 show ?thesis by (simp add: strip_def)
qed

lemma strip_idem: "strip (strip u) = strip u"
proof (cases "strip u = []")
  case True
  have "strip [] = []" by (simp add: strip_def)
  with True show ?thesis by simp
next
  case False
  then show ?thesis using strip_id strip_hd strip_last by blast
qed

lemma float_isspace_isspace: "float_isspace c \<Longrightarrow> isspace c"
  by (auto simp: float_isspace_def isspace_def Let_def)

lemma float_strip_id:
  "s \<noteq> [] \<Longrightarrow> \<not> float_isspace (hd s) \<Longrightarrow> \<not> float_isspace (last s) \<Longrightarrow> float_strip s = s"
proof -
  assume a: "s \<noteq> []" "\<not> float_isspace (hd s)" "\<not> float_isspace (last s)"
  then have 1: "dropWhile float_isspace s = s" by (cases s) auto
  from a have "rev s \<noteq> []" "\<not> float_isspace (hd (rev s))" by (simp_all add: hd_rev)
  then have "dropWhile float_isspace (rev s) = rev s" by (cases "rev s") auto
  with 1 show ?thesis by (simp add: float_strip_def)
qed

lemma float_strip_strip: "float_strip (strip u) = strip u"
proof (cases "strip u = []")
  case True
  have "float_strip [] = []" by (simp add: float_strip_def)
  with True show ?thesis by simp
next
  case False
  then show ?thesis
    using float_strip_id strip_hd strip_last float_isspace_isspace by blast
qed

lemma replace_comma_no_comma: "CHR '','' \<notin> set (replace_comma u)"
  by (simp add: replace_comma_def)

lemma paren_iff:
  "startswith s ''('' \<and> endswith s '')'' \<longleftrightarrow> (\<exists>t. s = ''('' @ t @ '')'')"
proof
  assume a: "startswith s ''('' \<and> endswith s '')''"
  then obtain r where s: "s = CHR ''('' # r" by (cases s) (auto simp: startswith_def)
  from a have l: "s \<noteq> [] \<and> last s = CHR '')''"
    by (cases s rule: rev_cases) (auto simp: endswith_def)
  with s have "r \<noteq> []" by auto
  with s l have "r = butlast r @ '')''" by (metis append_butlast_last_id last_ConsR)
  with s have "s = ''('' @ butlast r @ '')''" by simp
  then show "\<exists>t. s = ''('' @ t @ '')''" by blast
next
  assume "\<exists>t. s = ''('' @ t @ '')''"
  then show "startswith s ''('' \<and> endswith s '')''"
    by (auto simp: startswith_def endswith_def)
qed

lemma slice_paren: "slice_1_m1 (''('' @ t @ '')'') = t"
  by (simp add: slice_1_m1_def)

lemma clean_amount_cases:
  fixes x :: pyval
  defines "s \<equiv> strip (replace_comma (py_str x))"
  shows "s = ''('' @ t @ '')'' \<Longrightarrow>
           clean_amount x = (case py_float t of Inl e \<Rightarrow> Inl e | Inr v \<Rightarrow> Inr (fneg v))"
    and "s = [] \<or> s = ''None'' \<Longrightarrow> clean_amount x = Inr (Fin 0)"
    and "s \<noteq> [] \<Longrightarrow> s \<noteq> ''None'' \<Longrightarrow> \<not> (\<exists>t. s = ''('' @ t @ '')'') \<Longrightarrow>
           clean_amount x = py_float s"
proof -
  show "s = ''('' @ t @ '')'' \<Longrightarrow>
           clean_amount x = (case py_float t of Inl e \<Rightarrow> Inl e | Inr v \<Rightarrow> Inr (fneg v))"
    using paren_iff [of s] slice_paren [of t]
    unfolding clean_amount_def Let_def s_def [symmetric] by auto
  show "s = [] \<or> s = ''None'' \<Longrightarrow> clean_amount x = Inr (Fin 0)"
    unfolding clean_amount_def Let_def s_def [symmetric]
    by (auto simp: startswith_def endswith_def)
  show "s \<noteq> [] \<Longrightarrow> s \<noteq> ''None'' \<Longrightarrow> \<not> (\<exists>t. s = ''('' @ t @ '')'') \<Longrightarrow>
           clean_amount x = py_float s"
    using paren_iff [of s]
    unfolding clean_amount_def Let_def s_def [symmetric] by auto
qed

lemmas float_eval =
  clean_amount_def Let_def strip_def replace_comma_def startswith_def endswith_def
  slice_1_m1_def py_float_def isspace_def float_strip_def float_isspace_def parse_abs_def
  parse_number_def isdigit_def round64_eval
  ascii_lower_def parse_exponent_def pow10_def digits_val_def digit_val_def char_of_eq_iff

lemma clean_amount_examples:
  "clean_amount (PStr ''(1,234.50)'') = Inr (Fin (- 1234.50))"
  "clean_amount (PStr ''1,234.50'') = Inr (Fin 1234.50)"
  "clean_amount (PStr '''') = Inr (Fin 0)"
  "clean_amount (PStr ''None'') = Inr (Fin 0)"
  "clean_amount PNone = Inr (Fin 0)"
  by (simp_all add: float_eval)

lemma cleaned_text_no_comma: "CHR '','' \<notin> set (cleaned_text x)"
proof -
  have "set (strip (replace_comma (py_str x))) \<subseteq> set (replace_comma (py_str x))"
    using strip_decomp [of "replace_comma (py_str x)"]
    by (metis Un_upper1 Un_upper2 set_append subset_trans)
  then show ?thesis using replace_comma_no_comma unfolding cleaned_text_def by blast
qed

lemma cleaned_text_surround:
  "\<exists>a b. replace_comma (py_str x) = a @ cleaned_text x @ b
         \<and> list_all isspace a \<and> list_all isspace b"
proof -
  let ?u = "replace_comma (py_str x)"
  let ?a = "takeWhile isspace ?u"
  let ?b = "rev (takeWhile isspace (rev (dropWhile isspace ?u)))"
  have "?u = ?a @ cleaned_text x @ ?b"
    unfolding cleaned_text_def by (rule strip_decomp)
  moreover have "list_all isspace ?a" 
    unfolding list_all_iff using set_takeWhileD by fastforce
  moreover have "list_all isspace ?b"
    unfolding list_all_iff using set_takeWhileD by fastforce
  ultimately show ?thesis by blast
qed

lemma error_is_ValueError: "(e :: error) = ValueError"
  by (cases e) simp

subsection \<open>Plain decimal text\<close>

lemma isdigit_props:
  assumes "isdigit c"
  shows "\<not> float_isspace c" "c \<noteq> CHR ''_''" "c \<noteq> CHR ''-''" "c \<noteq> CHR ''+''" "c \<noteq> CHR ''.''"
    "ascii_lower c = c" "c \<noteq> CHR ''i''" "c \<noteq> CHR ''n''"
  using assms by (auto simp: isdigit_def float_isspace_def ascii_lower_def Let_def)

lemma digits_val_snoc: "digits_val (ds @ [c]) = 10 * digits_val ds + digit_val c"
  by (simp add: digits_val_def)

lemma digits_val_append:
  "digits_val (a @ b) = digits_val a * 10 ^ length b + digits_val b"
proof (induction b rule: rev_induct)
  case Nil
  then show ?case by (simp add: digits_val_def)
next
  case (snoc c b)
  have "digits_val (a @ b @ [c]) = 10 * digits_val (a @ b) + digit_val c"
    using digits_val_snoc [of "a @ b" c] by simp
  also have "\<dots> = 10 * (digits_val a * 10 ^ length b + digits_val b) + digit_val c"
    by (simp add: snoc.IH)
  also have "\<dots> = digits_val a * 10 ^ length (b @ [c]) + digits_val (b @ [c])"
    by (simp add: digits_val_snoc algebra_simps)
  finally show ?case .
qed

lemma underscores_ok_none:
  "CHR ''_'' \<notin> set s \<Longrightarrow> prev \<noteq> CHR ''_'' \<Longrightarrow> underscores_ok prev s"
  by (induction s arbitrary: prev) auto

lemma parse_abs_digit_head:
  assumes "isdigit c"
  shows "parse_abs (c # r) = map_option round64 (parse_number (c # r))"
  using isdigit_props(6,7,8) [OF assms] by (simp add: parse_abs_def Let_def)

lemma py_float_digit_head:
  assumes s: "s = c # r" and c: "isdigit c" and l: "isdigit (last s)"
    and u: "CHR ''_'' \<notin> set s"
  shows "py_float s = (case parse_number s of None \<Rightarrow> Inl ValueError | Some q \<Rightarrow> Inr (round64 q))"
proof -
  have "float_strip s = s"
    using s c l isdigit_props(1) by (intro float_strip_id) auto
  moreover have "underscores_ok (CHR 0x00) s" using u by (intro underscores_ok_none) auto
  moreover have "filter (\<lambda>c. c \<noteq> CHR ''_'') s = s" using u by (intro filter_True) auto
  ultimately show ?thesis
    using isdigit_props(3,4) [OF c] parse_abs_digit_head [OF c, of r] s
    by (auto simp: py_float_def Let_def split: option.splits)
qed

lemma pow10_powi: "pow10 e = 10 powi e"
  by (simp add: pow10_def power_int_def field_simps)

lemma parse_exponent_digits:
  assumes "all_digits ep" and "ec = CHR ''e'' \<or> ec = CHR ''E''"
  shows "parse_exponent (ec # ep) = Some (int (digits_val ep))"
    and "parse_exponent (ec # CHR ''+'' # ep) = Some (int (digits_val ep))"
    and "parse_exponent (ec # CHR ''-'' # ep) = Some (- int (digits_val ep))"
proof -
  from assms(1) obtain d ds where ep: "ep = d # ds" and d: "isdigit d"
    and all: "list_all isdigit ep" and ne: "ep \<noteq> []"
    by (cases ep) (auto simp: all_digits_def)
  from d have nd: "d \<noteq> CHR ''-''" "d \<noteq> CHR ''+''" using isdigit_props(3,4) by auto
  show "parse_exponent (ec # ep) = Some (int (digits_val ep))"
    using assms(2) all nd unfolding ep by (auto simp: parse_exponent_def)
  show "parse_exponent (ec # CHR ''+'' # ep) = Some (int (digits_val ep))"
    using assms(2) all ne by (auto simp: parse_exponent_def)
  show "parse_exponent (ec # CHR ''-'' # ep) = Some (- int (digits_val ep))"
    using assms(2) all ne by (auto simp: parse_exponent_def)
qed

lemma parse_number_sci:
  assumes "all_digits ip" and "all_digits fp"
    and tl: "rest = [] \<or> \<not> isdigit (hd rest)" and e: "parse_exponent rest = Some e"
  shows "parse_number (ip @ ''.'' @ fp @ rest)
           = Some ((of_nat (digits_val ip) + of_nat (digits_val fp) / 10 ^ length fp) * 10 powi e)"
proof -
  from assms have ip: "\<forall>c \<in> set ip. isdigit c" and fp: "\<forall>c \<in> set fp. isdigit c"
    and ne: "ip \<noteq> []" "fp \<noteq> []"
    by (simp_all add: all_digits_def list_all_iff)
  have nd: "\<not> isdigit (CHR ''.'')" by (simp add: isdigit_def)
  have t: "takeWhile isdigit (ip @ ''.'' @ fp @ rest) = ip"
    using ip nd by (simp add: takeWhile_append2)
  have d: "dropWhile isdigit (ip @ ''.'' @ fp @ rest) = ''.'' @ fp @ rest"
    using ip nd by (simp add: dropWhile_append2)
  have tf: "takeWhile isdigit (fp @ rest) = fp"
    using fp tl by (cases rest) (simp_all add: takeWhile_append2)
  have df: "dropWhile isdigit (fp @ rest) = rest"
    using fp tl by (cases rest) (simp_all add: dropWhile_append2)
  have "parse_number (ip @ ''.'' @ fp @ rest)
          = Some (of_nat (digits_val (ip @ fp)) * pow10 (e - int (length fp)))"
    unfolding parse_number_def Let_def t d using ne by (simp add: tf df e)
  also have "of_nat (digits_val (ip @ fp)) * pow10 (e - int (length fp))
          = ((of_nat (digits_val ip) + of_nat (digits_val fp) / 10 ^ length fp) * 10 powi e :: rat)"
    by (simp add: digits_val_append pow10_powi power_int_diff field_simps)
  finally show ?thesis .
qed

lemma parse_number_int:
  assumes "all_digits ip"
  shows "parse_number ip = Some (of_nat (digits_val ip))"
proof -
  from assms have ip: "\<forall>c \<in> set ip. isdigit c" and ne: "ip \<noteq> []"
    by (simp_all add: all_digits_def list_all_iff)
  have t: "takeWhile isdigit ip = ip" using ip by (simp add: takeWhile_eq_all_conv)
  have d: "dropWhile isdigit ip = []" using ip by simp
  show ?thesis
    unfolding parse_number_def Let_def t d using ne
    by (simp add: parse_exponent_def pow10_def)
qed

lemma py_float_minus_digit_head:
  assumes s: "s = c # r" and c: "isdigit c" and l: "isdigit (last s)"
    and u: "CHR ''_'' \<notin> set s"
  shows "py_float (CHR ''-'' # s)
           = (case parse_number s of None \<Rightarrow> Inl ValueError | Some q \<Rightarrow> Inr (fneg (round64 q)))"
proof -
  have "\<not> float_isspace (CHR ''-'')" by (simp add: float_isspace_def)
  then have "float_strip (CHR ''-'' # s) = CHR ''-'' # s"
    using s l isdigit_props(1) by (intro float_strip_id) auto
  moreover have "underscores_ok (CHR 0x00) (CHR ''-'' # s)"
    using u by (intro underscores_ok_none) auto
  moreover have "filter (\<lambda>c. c \<noteq> CHR ''_'') (CHR ''-'' # s) = CHR ''-'' # s"
    using u by (intro filter_True) auto
  ultimately show ?thesis
    using parse_abs_digit_head [OF c, of r] s
    by (auto simp: py_float_def Let_def split: option.splits)
qed

lemma digit_text:
  assumes "all_digits ip"
  shows "\<exists>c r. ip = c # r \<and> isdigit c" and "isdigit (last ip)" and "\<forall>c \<in> set ip. isdigit c"
    and "CHR ''_'' \<notin> set ip"
proof -
  from assms have ip: "\<forall>c \<in> set ip. isdigit c" and ne: "ip \<noteq> []"
    by (simp_all add: all_digits_def list_all_iff)
  show "\<exists>c r. ip = c # r \<and> isdigit c" using ip ne by (cases ip) auto
  show "isdigit (last ip)" using ip ne by simp
  show "\<forall>c \<in> set ip. isdigit c" by (rule ip)
  show "CHR ''_'' \<notin> set ip" using ip isdigit_props(2) by auto
qed

lemma py_float_forms:
  assumes ip: "all_digits ip" and fp: "all_digits fp" and ep: "all_digits ep"
    and ec: "ec = CHR ''e'' \<or> ec = CHR ''E''"
  defines "dec \<equiv> (of_nat (digits_val ip) + of_nat (digits_val fp) / 10 ^ length fp :: rat)"
  shows "py_float ip = Inr (round64 (of_nat (digits_val ip)))"
    and "py_float (ip @ ''.'' @ fp) = Inr (round64 dec)"
    and "py_float (''-'' @ ip @ ''.'' @ fp) = Inr (fneg (round64 dec))"
    and "py_float (ip @ ''.'' @ fp @ [ec] @ ep) = Inr (round64 (dec * 10 ^ digits_val ep))"
    and "py_float (ip @ ''.'' @ fp @ [ec] @ ''+'' @ ep) = Inr (round64 (dec * 10 ^ digits_val ep))"
    and "py_float (ip @ ''.'' @ fp @ [ec] @ ''-'' @ ep) = Inr (round64 (dec / 10 ^ digits_val ep))"
proof -
  from digit_text(1) [OF ip] obtain c r where h: "ip = c # r" and c: "isdigit c" by blast
  note i = digit_text(3,4) [OF ip] and f = digit_text(2,3,4) [OF fp] and p = digit_text(2,3,4) [OF ep]
  have fne: "fp \<noteq> []" and pne: "ep \<noteq> []" using fp ep by (simp_all add: all_digits_def)
  have ecd: "\<not> isdigit ec" "ec \<noteq> CHR ''_''" using ec by (auto simp: isdigit_def)
  show "py_float ip = Inr (round64 (of_nat (digits_val ip)))"
    using py_float_digit_head [OF h c digit_text(2) [OF ip] i(2)] parse_number_int [OF ip]
    by simp
  have s1: "ip @ ''.'' @ fp = c # (r @ ''.'' @ fp)" using h by simp
  have l1: "isdigit (last (ip @ ''.'' @ fp))" using f(1) fne by simp
  have u1: "CHR ''_'' \<notin> set (ip @ ''.'' @ fp)" using i(2) f(3) by simp
  have n1: "parse_number (ip @ ''.'' @ fp) = Some dec"
    using parse_number_sci [OF ip fp, of "[]" 0] by (simp add: parse_exponent_def dec_def)
  show "py_float (ip @ ''.'' @ fp) = Inr (round64 dec)"
    using py_float_digit_head [OF s1 c l1 u1] n1 by simp
  show "py_float (''-'' @ ip @ ''.'' @ fp) = Inr (fneg (round64 dec))"
    using py_float_minus_digit_head [OF s1 c l1 u1] n1 by simp
  have s2: "\<And>sg. ip @ ''.'' @ fp @ [ec] @ sg @ ep = c # (r @ ''.'' @ fp @ [ec] @ sg @ ep)"
    using h by simp
  have l2: "\<And>sg. isdigit (last (ip @ ''.'' @ fp @ [ec] @ sg @ ep))" using p(1) pne by simp
  have u2: "\<And>sg. CHR ''_'' \<notin> set sg \<Longrightarrow> CHR ''_'' \<notin> set (ip @ ''.'' @ fp @ [ec] @ sg @ ep)"
    using i(2) f(3) p(3) ecd(2) by simp
  have n2: "parse_number (ip @ ''.'' @ fp @ [ec] @ [] @ ep) = Some (dec * 10 ^ digits_val ep)"
    using parse_number_sci [OF ip fp, of "ec # ep" "int (digits_val ep)"]
      parse_exponent_digits(1) [OF ep ec] ecd(1) by (simp add: dec_def)
  have n3: "parse_number (ip @ ''.'' @ fp @ [ec] @ ''+'' @ ep) = Some (dec * 10 ^ digits_val ep)"
    using parse_number_sci [OF ip fp, of "ec # CHR ''+'' # ep" "int (digits_val ep)"]
      parse_exponent_digits(2) [OF ep ec] ecd(1) by (simp add: dec_def)
  have n4: "parse_number (ip @ ''.'' @ fp @ [ec] @ ''-'' @ ep) = Some (dec / 10 ^ digits_val ep)"
    using parse_number_sci [OF ip fp, of "ec # CHR ''-'' # ep" "- int (digits_val ep)"]
      parse_exponent_digits(3) [OF ep ec] ecd(1)
    by (simp add: dec_def power_int_minus field_simps)
  show "py_float (ip @ ''.'' @ fp @ [ec] @ ep) = Inr (round64 (dec * 10 ^ digits_val ep))"
    using py_float_digit_head [OF s2 [of "[]"] c l2 [of "[]"] u2 [of "[]"]] n2 by simp
  show "py_float (ip @ ''.'' @ fp @ [ec] @ ''+'' @ ep) = Inr (round64 (dec * 10 ^ digits_val ep))"
    using py_float_digit_head [OF s2 [of "''+''"] c l2 [of "''+''"] u2 [of "''+''"]] n3 by simp
  show "py_float (ip @ ''.'' @ fp @ [ec] @ ''-'' @ ep) = Inr (round64 (dec / 10 ^ digits_val ep))"
    using py_float_digit_head [OF s2 [of "''-''"] c l2 [of "''-''"] u2 [of "''-''"]] n4 by simp
qed

lemma clean_amount_decimal:
  assumes ip: "all_digits ip" and fp: "all_digits fp"
  shows "cleaned_text x = ip @ ''.'' @ fp \<Longrightarrow>
           clean_amount x = Inr (round64 (decimal_value ip fp))"
    and "cleaned_text x = ''('' @ ip @ ''.'' @ fp @ '')'' \<Longrightarrow>
           clean_amount x = Inr (fneg (round64 (decimal_value ip fp)))"
proof -
  have one: "all_digits ''1''" by (simp add: all_digits_def isdigit_def)
  have e: "CHR ''e'' = CHR ''e'' \<or> CHR ''e'' = CHR ''E''" by simp
  have f: "py_float (ip @ ''.'' @ fp) = Inr (round64 (decimal_value ip fp))"
    unfolding decimal_value_def by (rule py_float_forms(2) [OF ip fp one e])
  from digit_text(1) [OF ip] obtain c r where h: "ip = c # r" and c: "isdigit c" by blast
  then have c0: "c \<noteq> CHR ''(''" "c \<noteq> CHR ''N''" by (auto simp: isdigit_def)
  show "clean_amount x = Inr (round64 (decimal_value ip fp))"
    if t: "cleaned_text x = ip @ ''.'' @ fp"
  proof -
    from t h c0 have "cleaned_text x \<noteq> []" "cleaned_text x \<noteq> ''None''"
      "\<not> (\<exists>t. cleaned_text x = ''('' @ t @ '')'')" by auto
    then have "clean_amount x = py_float (cleaned_text x)"
      using clean_amount_cases(3) [of x] by (simp add: cleaned_text_def)
    with t f show ?thesis by simp
  qed
  show "clean_amount x = Inr (fneg (round64 (decimal_value ip fp)))"
    if t: "cleaned_text x = ''('' @ ip @ ''.'' @ fp @ '')''"
  proof -
    from t have "cleaned_text x = ''('' @ (ip @ ''.'' @ fp) @ '')''" by simp
    then have "clean_amount x = (case py_float (ip @ ''.'' @ fp) of
                  Inl e \<Rightarrow> Inl e | Inr v \<Rightarrow> Inr (fneg v))"
      using clean_amount_cases(1) [of x "ip @ ''.'' @ fp"] by (simp add: cleaned_text_def)
    with f show ?thesis by simp
  qed
qed

text \<open>
  Claim C1.  \<open>clean_amount\<close> works on the text of its argument with every comma
  removed and the surrounding whitespace stripped.  If that text is wrapped in
  parentheses, the result is the negation of the parsed interior; if it is empty or
  the null marker \<^verbatim>\<open>None\<close>, the result is 0.0; otherwise the text is parsed as a
  number.  The parse of decimal text (digits; digits, a point and digits; with a
  minus sign; with an exponent) is the float nearest to the decimal number the text
  denotes, so an amount \<open>ip.fp\<close> gives that float and \<open>(ip.fp)\<close> gives its
  negation.  In particular \<^verbatim>\<open>(1,234.50)\<close> gives -1234.50, \<^verbatim>\<open>1,234.50\<close> gives 1234.50,
  and the empty string and \<^verbatim>\<open>None\<close> give 0.0.
\<close>

theorem clean_amount_coercion:
  "CHR '','' \<notin> set (cleaned_text x)
   \<and> (\<exists>a b. replace_comma (py_str x) = a @ cleaned_text x @ b
          \<and> list_all isspace a \<and> list_all isspace b)
   \<and> (cleaned_text x \<noteq> [] \<longrightarrow>
         \<not> isspace (hd (cleaned_text x)) \<and> \<not> isspace (last (cleaned_text x)))
   \<and> (\<forall>t. cleaned_text x = ''('' @ t @ '')'' \<longrightarrow>
         clean_amount x = (case py_float t of Inl e \<Rightarrow> Inl e | Inr v \<Rightarrow> Inr (fneg v)))
   \<and> (cleaned_text x = [] \<or> cleaned_text x = ''None'' \<longrightarrow> clean_amount x = Inr (Fin 0))
   \<and> (cleaned_text x \<noteq> [] \<and> cleaned_text x \<noteq> ''None''
        \<and> \<not> (\<exists>t. cleaned_text x = ''('' @ t @ '')'') \<longrightarrow>
         clean_amount x = py_float (cleaned_text x))
   \<and> (all_digits ip \<and> all_digits fp \<and> all_digits ep \<and> (ec = CHR ''e'' \<or> ec = CHR ''E'') \<longrightarrow>
         py_float ip = Inr (round64 (of_nat (digits_val ip)))
         \<and> py_float (ip @ ''.'' @ fp) = Inr (round64 (decimal_value ip fp))
         \<and> py_float (''-'' @ ip @ ''.'' @ fp) = Inr (fneg (round64 (decimal_value ip fp)))
         \<and> py_float (ip @ ''.'' @ fp @ [ec] @ ep)
             = Inr (round64 (decimal_value ip fp * 10 ^ digits_val ep))
         \<and> py_float (ip @ ''.'' @ fp @ [ec] @ ''+'' @ ep)
             = Inr (round64 (decimal_value ip fp * 10 ^ digits_val ep))
         \<and> py_float (ip @ ''.'' @ fp @ [ec] @ ''-'' @ ep)
             = Inr (round64 (decimal_value ip fp / 10 ^ digits_val ep)))
   \<and> (all_digits ip \<and> all_digits fp \<longrightarrow>
         (cleaned_text x = ip @ ''.'' @ fp \<longrightarrow>
            clean_amount x = Inr (round64 (decimal_value ip fp)))
         \<and> (cleaned_text x = ''('' @ ip @ ''.'' @ fp @ '')'' \<longrightarrow>
            clean_amount x = Inr (fneg (round64 (decimal_value ip fp)))))
   \<and> clean_amount (PStr ''(1,234.50)'') = Inr (Fin (- 1234.50))
   \<and> clean_amount (PStr ''1,234.50'') = Inr (Fin 1234.50)
   \<and> clean_amount (PStr '''') = Inr (Fin 0)
   \<and> clean_amount (PStr ''None'') = Inr (Fin 0)"
proof (intro conjI)
  show "CHR '','' \<notin> set (cleaned_text x)" by (rule cleaned_text_no_comma)
  show "\<exists>a b. replace_comma (py_str x) = a @ cleaned_text x @ b
          \<and> list_all isspace a \<and> list_all isspace b" by (rule cleaned_text_surround)
  show "cleaned_text x \<noteq> [] \<longrightarrow>
         \<not> isspace (hd (cleaned_text x)) \<and> \<not> isspace (last (cleaned_text x))"
    unfolding cleaned_text_def using strip_hd strip_last by blast
  show "\<forall>t. cleaned_text x = ''('' @ t @ '')'' \<longrightarrow>
         clean_amount x = (case py_float t of Inl e \<Rightarrow> Inl e | Inr v \<Rightarrow> Inr (fneg v))"
    unfolding cleaned_text_def using clean_amount_cases(1) by blast
  show "cleaned_text x = [] \<or> cleaned_text x = ''None'' \<longrightarrow> clean_amount x = Inr (Fin 0)"
    unfolding cleaned_text_def using clean_amount_cases(2) by blast
  show "cleaned_text x \<noteq> [] \<and> cleaned_text x \<noteq> ''None''
        \<and> \<not> (\<exists>t. cleaned_text x = ''('' @ t @ '')'') \<longrightarrow>
         clean_amount x = py_float (cleaned_text x)"
    unfolding cleaned_text_def using clean_amount_cases(3) by blast
  show "all_digits ip \<and> all_digits fp \<and> all_digits ep \<and> (ec = CHR ''e'' \<or> ec = CHR ''E'') \<longrightarrow>
         py_float ip = Inr (round64 (of_nat (digits_val ip)))
         \<and> py_float (ip @ ''.'' @ fp) = Inr (round64 (decimal_value ip fp))
         \<and> py_float (''-'' @ ip @ ''.'' @ fp) = Inr (fneg (round64 (decimal_value ip fp)))
         \<and> py_float (ip @ ''.'' @ fp @ [ec] @ ep)
             = Inr (round64 (decimal_value ip fp * 10 ^ digits_val ep))
         \<and> py_float (ip @ ''.'' @ fp @ [ec] @ ''+'' @ ep)
             = Inr (round64 (decimal_value ip fp * 10 ^ digits_val ep))
         \<and> py_float (ip @ ''.'' @ fp @ [ec] @ ''-'' @ ep)
             = Inr (round64 (decimal_value ip fp / 10 ^ digits_val ep))"
    unfolding decimal_value_def using py_float_forms [of ip fp ep ec] by blast
  show "all_digits ip \<and> all_digits fp \<longrightarrow>
         (cleaned_text x = ip @ ''.'' @ fp \<longrightarrow>
            clean_amount x = Inr (round64 (decimal_value ip fp)))
         \<and> (cleaned_text x = ''('' @ ip @ ''.'' @ fp @ '')'' \<longrightarrow>
            clean_amount x = Inr (fneg (round64 (decimal_value ip fp))))"
    using clean_amount_decimal [of ip fp x] by blast
qed (simp_all add: clean_amount_examples)

theorem clean_amount_coercion_witness:
  "cleaned_text (PStr '' (2,500.25) '') = ''('' @ ''2500.25'' @ '')''
   \<and> clean_amount (PStr '' (2,500.25) '') = Inr (Fin (- 2500.25))"
proof -
  have c: "cleaned_text (PStr '' (2,500.25) '') = ''('' @ ''2500.25'' @ '')''"
    by (simp add: cleaned_text_def strip_def replace_comma_def isspace_def)
  have f: "py_float ''2500.25'' = Inr (Fin 2500.25)"
    by (simp add: float_eval)
  from clean_amount_coercion [of "PStr '' (2,500.25) ''"] c
  have "clean_amount (PStr '' (2,500.25) '')
        = (case py_float ''2500.25'' of Inl e \<Rightarrow> Inl e | Inr v \<Rightarrow> Inr (fneg v))"
    by blast
  with c f show ?thesis by simp
qed

text \<open>
  Claim C7.  When the cleaned amount text is not empty, not the null marker, and
  neither valid numeric nor valid accounting notation, \<open>clean_amount\<close> raises
  \<^verbatim>\<open>ValueError\<close>; it does not return 0.0.
\<close>

theorem clean_amount_rejects_malformed:
  assumes "cleaned_text x \<noteq> []" and "cleaned_text x \<noteq> ''None''"
    and "\<not> valid_numeric (cleaned_text x)" and "\<not> valid_accounting (cleaned_text x)"
  shows "clean_amount x = Inl ValueError \<and> clean_amount x \<noteq> Inr (Fin 0)"
proof -
  have "clean_amount x = Inl ValueError"
  proof (cases "\<exists>t. cleaned_text x = ''('' @ t @ '')''")
    case True
    then obtain t where t: "cleaned_text x = ''('' @ t @ '')''" by blast
    with assms(4) have "\<not> valid_numeric t" unfolding valid_accounting_def by blast
    then obtain e where "py_float t = Inl e"
      unfolding valid_numeric_def by (cases "py_float t") auto
    then have "clean_amount x = Inl e"
      using clean_amount_cases(1) [of x t] t unfolding cleaned_text_def by simp
    then show ?thesis using error_is_ValueError by simp
  next
    case False
    with assms(1,2) have "clean_amount x = py_float (cleaned_text x)"
      using clean_amount_cases(3) [of x] unfolding cleaned_text_def by blast
    moreover from assms(3) obtain e where "py_float (cleaned_text x) = Inl e"
      unfolding valid_numeric_def by (cases "py_float (cleaned_text x)") auto
    ultimately show ?thesis using error_is_ValueError by simp
  qed
  then show ?thesis by simp
qed

theorem clean_amount_rejects_malformed_witness:
  "cleaned_text (PStr ''12,5abc'') = ''125abc''
   \<and> \<not> valid_numeric ''125abc'' \<and> \<not> valid_accounting ''125abc''
   \<and> clean_amount (PStr ''12,5abc'') = Inl ValueError"
proof -
  have c: "cleaned_text (PStr ''12,5abc'') = ''125abc''"
    by (simp add: cleaned_text_def strip_def replace_comma_def isspace_def)
  have n: "\<not> valid_numeric ''125abc''"
    by (simp add: valid_numeric_def float_eval)
  have a: "\<not> valid_accounting ''125abc''"
    by (simp add: valid_accounting_def)
  from clean_amount_rejects_malformed [of "PStr ''12,5abc''"] c n a show ?thesis
    by simp
qed

section \<open>The sign of normalized amounts\<close>

lemma pow10_pos: "0 < pow10 e"
  by (simp add: pow10_def)

lemma scaled_nonneg: "0 \<le> (of_nat n :: rat) * pow10 e"
  using pow10_pos [of e] by simp

lemma parse_number_nonneg: "parse_number s = Some r \<Longrightarrow> 0 \<le> r"
  by (auto simp: parse_number_def Let_def scaled_nonneg split: if_splits option.splits)

lemma parse_abs_nonneg: "parse_abs s = Some v \<Longrightarrow> fnonneg v \<or> v = NaN"
proof -
  assume a: "parse_abs s = Some v"
  show ?thesis
  proof (cases "\<exists>q. parse_number s = Some q \<and> v = round64 q")
    case True
    then obtain q where "parse_number s = Some q" and v: "v = round64 q" by blast
    then have "0 \<le> q" by (simp add: parse_number_nonneg)
    from round64_nonneg [OF this] v show ?thesis by (auto simp: fnonneg_def)
  next
    case False
    with a show ?thesis
      by (auto simp: parse_abs_def Let_def fnonneg_def split: if_splits)
  qed
qed

lemma underscores_ok_hd:
  "underscores_ok (CHR 0x00) t \<Longrightarrow> t \<noteq> [] \<Longrightarrow> hd t \<noteq> CHR ''_''"
  by (cases t) (auto simp: isdigit_def split: if_splits)

lemma py_float_unsigned:
  assumes "py_float s = Inr v" and "\<not> startswith (float_strip s) ''-''"
  shows "fnonneg v \<or> v = NaN"
proof -
  let ?t = "float_strip s"
  let ?u = "filter (\<lambda>c. c \<noteq> CHR ''_'') ?t"
  from assms(1) have ok: "underscores_ok (CHR 0x00) ?t"
    by (auto simp: py_float_def Let_def split: if_splits)
  show ?thesis
  proof (cases ?t)
    case Nil
    with assms(1) show ?thesis by (simp add: py_float_def Let_def split: if_splits)
  next
    case (Cons c w)
    with ok have c: "c \<noteq> CHR ''_''" using underscores_ok_hd [of ?t] by simp
    from Cons assms(2) have m: "c \<noteq> CHR ''-''" by (simp add: startswith_def)
    from Cons c have u: "?u = c # filter (\<lambda>c. c \<noteq> CHR ''_'') w" by simp
    from assms(1) ok u m have "parse_abs (filter (\<lambda>c. c \<noteq> CHR ''_'') w) = Some v
        \<or> parse_abs ?u = Some v"
      by (auto simp: py_float_def Let_def split: if_splits option.splits)
    then show ?thesis using parse_abs_nonneg by blast
  qed
qed

lemma clean_amount_unsigned:
  assumes "clean_amount c = Inr v" and "unsigned_text c"
  shows "fnonneg v \<or> v = NaN"
proof -
  let ?s = "strip (replace_comma (py_str c))"
  from assms(2) have np: "\<not> (startswith ?s ''('' \<and> endswith ?s '')'')"
    and nm: "\<not> startswith (float_strip ?s) ''-''"
    by (simp_all add: unsigned_text_def cleaned_text_def Let_def float_strip_strip)
  from assms(1) np have "py_float ?s = Inr v \<or> v = Fin 0"
    by (auto simp: clean_amount_def Let_def split: if_splits)
  then show ?thesis
  proof
    assume "py_float ?s = Inr v"
    then show ?thesis using nm by (rule py_float_unsigned)
  next
    assume "v = Fin 0"
    then show ?thesis by (simp add: fnonneg_def)
  qed
qed

lemma apply_clean_Inr:
  "apply_clean xs = Inr vs \<Longrightarrow>
     length vs = length xs \<and> (\<forall>i<length xs. clean_amount (xs ! i) = Inr (vs ! i))"
proof (induction xs arbitrary: vs)
  case Nil
  then show ?case by simp
next
  case (Cons x xs)
  from Cons.prems obtain v ws where
    x: "clean_amount x = Inr v" and r: "apply_clean xs = Inr ws" and vs: "vs = v # ws"
    by (auto split: sum.splits)
  from Cons.IH [OF r] have l: "length ws = length xs"
    and n: "\<And>i. i < length xs \<Longrightarrow> clean_amount (xs ! i) = Inr (ws ! i)" by auto
  show ?case
  proof (intro conjI allI impI)
    show "length vs = length (x # xs)" using l vs by simp
    fix i assume "i < length (x # xs)"
    then show "clean_amount ((x # xs) ! i) = Inr (vs ! i)"
      using x n vs by (cases i) auto
  qed
qed

lemma clean_frame_Inr:
  assumes "clean_frame parse rows = Inr d"
  shows "length d = length rows"
    and "i < length rows \<Longrightarrow> Date (d ! i) = parse (map raw_Date rows) (raw_Date (rows ! i))"
    and "i < length rows \<Longrightarrow> Particulars (d ! i) = raw_Particulars (rows ! i)"
    and "i < length rows \<Longrightarrow> clean_amount (raw_Withdrawals (rows ! i)) = Inr (Withdrawals (d ! i))"
    and "i < length rows \<Longrightarrow> clean_amount (raw_Deposits (rows ! i)) = Inr (Deposits (d ! i))"
    and "i < length rows \<Longrightarrow> clean_amount (raw_Balance (rows ! i)) = Inr (Balance (d ! i))"
proof -
  from assms obtain ws ds bs where
    w: "apply_clean (map raw_Withdrawals rows) = Inr ws" and
    dp: "apply_clean (map raw_Deposits rows) = Inr ds" and
    b: "apply_clean (map raw_Balance rows) = Inr bs" and
    d: "d = map (\<lambda>(r, d, w, dp, b).
                      \<lparr>Date = d, Particulars = raw_Particulars r, Withdrawals = w,
                       Deposits = dp, Balance = b\<rparr>)
                 (zip rows (zip (to_datetime parse (map raw_Date rows))
                   (zip ws (zip ds bs))))"
    by (auto simp: clean_frame_def split: sum.splits)
  note W = apply_clean_Inr [OF w] and D = apply_clean_Inr [OF dp] and B = apply_clean_Inr [OF b]
  show "length d = length rows" using W D B by (simp add: d to_datetime_def)
  assume i: "i < length rows"
  show "Date (d ! i) = parse (map raw_Date rows) (raw_Date (rows ! i))"
    using i W D B by (simp add: d to_datetime_def)
  show "Particulars (d ! i) = raw_Particulars (rows ! i)"
    using i W D B by (simp add: d to_datetime_def)
  show "clean_amount (raw_Withdrawals (rows ! i)) = Inr (Withdrawals (d ! i))"
    using i W D B by (simp add: d to_datetime_def)
  show "clean_amount (raw_Deposits (rows ! i)) = Inr (Deposits (d ! i))"
    using i W D B by (simp add: d to_datetime_def)
  show "clean_amount (raw_Balance (rows ! i)) = Inr (Balance (d ! i))"
    using i W D B by (simp add: d to_datetime_def)
qed

lemma amount_cells:
  "clean_amount (PStr ''0'') = Inr (Fin 0)"
  "clean_amount (PStr ''(5,000.00)'') = Inr (Fin (- 5000))"
  "clean_amount (PStr ''50,000.00'') = Inr (Fin 50000)"
  "clean_amount (PStr ''45,000.00'') = Inr (Fin 45000)"
  by (simp_all add: float_eval)

lemmas date_eval =
  dayfirst_parse_def all_digits_def isdigit_def digits_val_def digit_val_def
  month_of_num_def is_leap_def

lemma date_cells:
  "dayfirst_parse col (PStr ''01/02/2023'') = Some \<lparr>year = 2023, mon = February, day = 1, tod = 0\<rparr>"
  "dayfirst_parse col (PStr ''05/02/2023'') = Some \<lparr>year = 2023, mon = February, day = 5, tod = 0\<rparr>"
  by (simp_all add: date_eval)

lemma extract_scenario_any:
  "extract_rows [Some [hdr, salary_row, loan_row]] =
     [\<lparr>raw_Date = PStr ''01/02/2023'', raw_Particulars = PStr ''Salary Credit'',
       raw_Withdrawals = PStr ''0'', raw_Deposits = PStr ''50,000.00'',
       raw_Balance = PStr ''50,000.00''\<rparr>,
      \<lparr>raw_Date = PStr ''05/02/2023'', raw_Particulars = PStr ''Loan EMI'',
       raw_Withdrawals = PStr ''(5,000.00)'', raw_Deposits = PStr ''0'',
       raw_Balance = PStr ''45,000.00''\<rparr>]"
  by (simp add: extract_rows_def salary_row_def loan_row_def row_dict_def)

lemma clean_frame_scenario_any:
  "clean_frame dayfirst_parse (extract_rows [Some [hdr, salary_row, loan_row]]) =
     Inr scenario_frame"
  by (simp add: extract_scenario_any clean_frame_def amount_cells to_datetime_def date_cells
      scenario_frame_def)

lemma parse_abs_NaN: "parse_abs s = Some NaN \<Longrightarrow> map ascii_lower s = ''nan''"
  by (auto simp: parse_abs_def Let_def round64_not_NaN split: if_splits)

lemma fneg_NaN: "fneg x = NaN \<Longrightarrow> x = NaN"
  by (cases x) simp_all

lemma underscores_digit:
  "underscores_ok p t \<Longrightarrow> CHR ''_'' \<in> set t \<Longrightarrow> isdigit p \<or> (\<exists>c \<in> set t. isdigit c)"
proof (induction t arbitrary: p)
  case Nil
  then show ?case by simp
next
  case (Cons c cs)
  show ?case
  proof (cases "c = CHR ''_''")
    case True
    with Cons.prems(1) show ?thesis by simp
  next
    case False
    with Cons.prems have "underscores_ok c cs" and "CHR ''_'' \<in> set cs"
      by (auto split: if_splits)
    from Cons.IH [OF this] show ?thesis by auto
  qed
qed

lemma nan_no_digit:
  assumes "map ascii_lower u = ''nan'' \<or> map ascii_lower u = ''+nan'' \<or> map ascii_lower u = ''-nan''"
    and "c \<in> set u"
  shows "\<not> isdigit c"
proof
  assume d: "isdigit c"
  from assms(2) have "ascii_lower c \<in> set (map ascii_lower u)" by simp
  with assms(1) have "ascii_lower c \<in> set ''+-nan''" by auto
  with isdigit_props(6) [OF d] have "c \<in> set ''+-nan''" by simp
  with d show False by (auto simp: isdigit_def)
qed

lemma ascii_lower_sign:
  "ascii_lower c = CHR ''-'' \<longleftrightarrow> c = CHR ''-''" "ascii_lower c = CHR ''+'' \<longleftrightarrow> c = CHR ''+''"
proof -
  have up: "of_char (ascii_lower c) = (of_char c + 32 :: nat)"
    if "65 \<le> (of_char c :: nat)" "(of_char c :: nat) \<le> 90"
    using that by (simp add: ascii_lower_def Let_def)
  have same: "ascii_lower c = c" if "\<not> (65 \<le> (of_char c :: nat) \<and> (of_char c :: nat) \<le> 90)"
    using that by (auto simp: ascii_lower_def Let_def)
  show "ascii_lower c = CHR ''-'' \<longleftrightarrow> c = CHR ''-''"
  proof (cases "65 \<le> (of_char c :: nat) \<and> (of_char c :: nat) \<le> 90")
    case True
    then have "(of_char (ascii_lower c) :: nat) \<noteq> of_char (CHR ''-'')" using up by simp
    moreover from True have "c \<noteq> CHR ''-''" by auto
    ultimately show ?thesis by auto
  next
    case False
    then show ?thesis using same by simp
  qed
  show "ascii_lower c = CHR ''+'' \<longleftrightarrow> c = CHR ''+''"
  proof (cases "65 \<le> (of_char c :: nat) \<and> (of_char c :: nat) \<le> 90")
    case True
    then have "(of_char (ascii_lower c) :: nat) \<noteq> of_char (CHR ''+'')" using up by simp
    moreover from True have "c \<noteq> CHR ''+''" by auto
    ultimately show ?thesis by auto
  next
    case False
    then show ?thesis using same by simp
  qed
qed

lemma py_float_NaN:
  assumes "py_float s = Inr NaN"
  shows "map ascii_lower (float_strip s) = ''nan'' \<or> map ascii_lower (float_strip s) = ''+nan''
         \<or> map ascii_lower (float_strip s) = ''-nan''"
proof -
  let ?t = "float_strip s"
  let ?u = "filter (\<lambda>c. c \<noteq> CHR ''_'') ?t"
  from assms have ok: "underscores_ok (CHR 0x00) ?t"
    by (auto simp: py_float_def Let_def split: if_splits)
  have u: "map ascii_lower ?u = ''nan'' \<or> map ascii_lower ?u = ''+nan''
           \<or> map ascii_lower ?u = ''-nan''"
  proof (cases ?u)
    case Nil
    with assms ok show ?thesis by (simp add: py_float_def Let_def)
  next
    case (Cons c w)
    with assms ok have "(c = CHR ''-'' \<and> parse_abs w = Some NaN)
        \<or> (c = CHR ''+'' \<and> parse_abs w = Some NaN) \<or> parse_abs ?u = Some NaN"
      by (auto simp: py_float_def Let_def split: if_splits option.splits dest: fneg_NaN)
    then show ?thesis using Cons parse_abs_NaN [of w] parse_abs_NaN [of ?u]
      by (auto simp: ascii_lower_def)
  qed
  have "CHR ''_'' \<notin> set ?t"
  proof
    assume "CHR ''_'' \<in> set ?t"
    with underscores_digit [OF ok] obtain c where c: "c \<in> set ?t" "isdigit c"
      by (auto simp: isdigit_def)
    with isdigit_props(2) have "c \<in> set ?u" by auto
    with nan_no_digit [OF u] c(2) show False by blast
  qed
  then have "?u = ?t" by (intro filter_True) auto
  with u show ?thesis by simp
qed

lemma cleaned_float_strip: "float_strip (cleaned_text c) = cleaned_text c"
  by (simp add: cleaned_text_def float_strip_strip)

lemma clean_amount_sign:
  assumes "clean_amount c = Inr v"
  shows "sign_carried c v"
proof -
  let ?s = "cleaned_text c"
  have a: "unsigned_text c \<longrightarrow> fnonneg v \<or> (v = NaN \<and> nan_text ?s)"
  proof
    assume un: "unsigned_text c"
    show "fnonneg v \<or> (v = NaN \<and> nan_text ?s)"
    proof (cases "v = NaN")
      case False
      with clean_amount_unsigned [OF assms un] show ?thesis by simp
    next
      case True
      from un have np: "\<not> (startswith ?s ''('' \<and> endswith ?s '')'')"
        and nm: "\<not> startswith ?s ''-''"
        by (simp_all add: unsigned_text_def Let_def)
      from assms np True have "py_float ?s = Inr NaN"
        by (auto simp: clean_amount_def cleaned_text_def Let_def split: if_splits)
      from py_float_NaN [OF this] have
        "map ascii_lower ?s = ''nan'' \<or> map ascii_lower ?s = ''+nan'' \<or> map ascii_lower ?s = ''-nan''"
        by (simp add: cleaned_float_strip)
      moreover have "map ascii_lower ?s \<noteq> ''-nan''"
      proof
        assume "map ascii_lower ?s = ''-nan''"
        then obtain x xs where "?s = x # xs" "ascii_lower x = CHR ''-''" by (cases ?s) auto
        with nm show False by (simp add: startswith_def ascii_lower_sign)
      qed
      ultimately show ?thesis using True by (simp add: nan_text_def)
    qed
  qed
  have b: "\<forall>t. ?s = ''('' @ t @ '')'' \<longrightarrow> (\<exists>u. py_float t = Inr u \<and> v = fneg u)"
  proof (intro allI impI)
    fix t assume "?s = ''('' @ t @ '')''"
    then have "clean_amount c = (case py_float t of Inl e \<Rightarrow> Inl e | Inr v \<Rightarrow> Inr (fneg v))"
      using clean_amount_cases(1) [of c t] by (simp add: cleaned_text_def)
    with assms show "\<exists>u. py_float t = Inr u \<and> v = fneg u"
      by (cases "py_float t") auto
  qed
  have m: "\<forall>t. ?s = ''-'' @ t \<longrightarrow> fnonpos v \<or> (v = NaN \<and> map ascii_lower t = ''nan'')"
  proof (intro allI impI)
    fix t assume s: "?s = ''-'' @ t"
    then have np: "\<not> (\<exists>t. ?s = ''('' @ t @ '')'')" by auto
    from s have "?s \<noteq> []" "?s \<noteq> ''None''" by auto
    with np have "clean_amount c = py_float ?s"
      using clean_amount_cases(3) [of c] by (simp add: cleaned_text_def)
    with assms have pf: "py_float ?s = Inr v" by simp
    show "fnonpos v \<or> (v = NaN \<and> map ascii_lower t = ''nan'')"
    proof (cases "v = NaN")
      case True
      with pf have "py_float ?s = Inr NaN" by simp
      from py_float_NaN [OF this] have
        "map ascii_lower ?s = ''nan'' \<or> map ascii_lower ?s = ''+nan'' \<or> map ascii_lower ?s = ''-nan''"
        by (simp add: cleaned_float_strip)
      with s have "map ascii_lower t = ''nan''" by (auto simp: ascii_lower_def)
      with True show ?thesis by simp
    next
      case False
      let ?w = "filter (\<lambda>c. c \<noteq> CHR ''_'') t"
      have fs: "float_strip (CHR ''-'' # t) = CHR ''-'' # t"
        using cleaned_float_strip [of c] s by simp
      from pf s have "py_float (CHR ''-'' # t) = Inr v" by simp
      then have "\<exists>x. parse_abs ?w = Some x \<and> v = fneg x"
        by (auto simp: py_float_def Let_def fs split: if_splits option.splits)
      then obtain x where x: "parse_abs ?w = Some x" and v: "v = fneg x" by blast
      from parse_abs_nonneg [OF x] v False have "fnonneg x" by auto
      with v have "fnonpos v" by (cases x) (auto simp: fnonneg_def fnonpos_def)
      then show ?thesis by simp
    qed
  qed
  from a b m show ?thesis unfolding sign_carried_def by blast
qed

text \<open>
  Claim C2, as stated, fails: the second row of the specification's own scenario has
  the withdrawal cell \<^verbatim>\<open>(5,000.00)\<close>, and its normalized withdrawal is -5000, which
  is negative.
\<close>

theorem normalized_amounts_sign_counterexample:
  "clean_frame dayfirst_parse (extract_rows [Some [header_row, salary_row, loan_row]])
     = Inr scenario_frame
   \<and> Withdrawals (scenario_frame ! 1) = Fin (- 5000)
   \<and> \<not> fnonneg (Withdrawals (scenario_frame ! 1))"
  using clean_frame_scenario_any [of header_row] by (simp add: scenario_frame_def fnonneg_def)

text \<open>
  Claim C2, amended.  For every frame the Normalizer produces, row by row: the
  withdrawal and the deposit are what \<open>clean_amount\<close> returns for cells 6 and 7.  Such
  an amount is non-negative when the cleaned cell text is neither wrapped in
  parentheses nor starts with a minus sign (NaN only for the text nan or +nan); for
  a text wrapped in parentheses it is the negation of the value of the interior, so
  \<^verbatim>\<open>(5,000.00)\<close> gives -5000; for a text that starts with a minus sign it is at most
  zero (NaN only for -nan).  The sign is carried into the record, not absorbed.
\<close>

theorem normalized_amounts_sign:
  assumes "clean_frame parse rows = Inr d" and "i < length rows"
  shows "length d = length rows
    \<and> clean_amount (raw_Withdrawals (rows ! i)) = Inr (Withdrawals (d ! i))
    \<and> clean_amount (raw_Deposits (rows ! i)) = Inr (Deposits (d ! i))
    \<and> sign_carried (raw_Withdrawals (rows ! i)) (Withdrawals (d ! i))
    \<and> sign_carried (raw_Deposits (rows ! i)) (Deposits (d ! i))"
  using clean_frame_Inr(1,4,5) [OF assms(1)] assms(2) clean_amount_sign
  by simp

theorem normalized_amounts_sign_witness:
  "clean_frame dayfirst_parse (extract_rows [Some [header_row, salary_row, loan_row]])
     = Inr scenario_frame
   \<and> cleaned_text (PStr ''(5,000.00)'') = ''('' @ ''5000.00'' @ '')''
   \<and> py_float ''5000.00'' = Inr (Fin 5000)
   \<and> Withdrawals (scenario_frame ! 1) = fneg (Fin 5000)
   \<and> unsigned_text (PStr ''0'')
   \<and> fnonneg (Deposits (scenario_frame ! 1))
   \<and> sign_carried (PStr ''(5,000.00)'') (Withdrawals (scenario_frame ! 1))
   \<and> sign_carried (PStr ''0'') (Deposits (scenario_frame ! 1))"
proof -
  note h = clean_frame_scenario_any [of header_row]
  have c: "cleaned_text (PStr ''(5,000.00)'') = ''('' @ ''5000.00'' @ '')''"
    by (simp add: cleaned_text_def strip_def replace_comma_def isspace_def)
  have f: "py_float ''5000.00'' = Inr (Fin 5000)" by (simp add: float_eval)
  have u: "unsigned_text (PStr ''0'')"
    by (simp add: unsigned_text_def cleaned_text_def strip_def replace_comma_def isspace_def
        startswith_def endswith_def)
  have v: "Withdrawals (scenario_frame ! 1) = fneg (Fin 5000)"
    "fnonneg (Deposits (scenario_frame ! 1))"
    by (simp_all add: scenario_frame_def fnonneg_def)
  from normalized_amounts_sign [OF h, of 1]
  have "sign_carried (PStr ''(5,000.00)'') (Withdrawals (scenario_frame ! 1))
        \<and> sign_carried (PStr ''0'') (Deposits (scenario_frame ! 1))"
    by (simp add: extract_scenario_any)
  with h c f u v show ?thesis by simp
qed

section \<open>Properties of the report\<close>

lemma add_sel [simp]:
  "Date (add_month t) = Date t" "Particulars (add_month t) = Particulars t"
  "Withdrawals (add_month t) = Withdrawals t" "Deposits (add_month t) = Deposits t"
  "Balance (add_month t) = Balance t" "Month (add_month t) = map_option strftime_BY (Date t)"
  "Date (add_category u) = Date u" "Particulars (add_category u) = Particulars u"
  "Withdrawals (add_category u) = Withdrawals u" "Deposits (add_category u) = Deposits u"
  "Balance (add_category u) = Balance u" "Month (add_category u) = Month u"
  "Category (add_category u) = categorize (Particulars u)"
  by (simp_all add: add_month_def add_category_def)

lemma bank_report_Some:
  assumes "bank_report parse pages = Inr (Some rep)"
  shows "\<exists>d0. extract_rows pages \<noteq> [] \<and> clean_frame parse (extract_rows pages) = Inr d0
          \<and> df rep = map add_category (map add_month (sort_values d0))
          \<and> total_debit rep = series_sum (map Withdrawals (sort_values d0))
          \<and> total_credit rep = series_sum (map Deposits (sort_values d0))
          \<and> net_cash rep = fsub (total_credit rep) (total_debit rep)
          \<and> monthly rep = monthly_of (map add_month (sort_values d0))
          \<and> category_summary rep = category_summary_of (df rep)"
  using assms
  by (auto simp: bank_report_def Let_def split: if_splits sum.splits)

lemma monthly_of_add_category:
  "monthly_of (map add_category d) = monthly_of d"
  by (simp add: monthly_of_def filter_map comp_def)

lemma series_sum_add [simp]:
  "series_sum (map Withdrawals (map add_category d)) = series_sum (map Withdrawals d)"
  "series_sum (map Deposits (map add_category d)) = series_sum (map Deposits d)"
  "series_sum (map Withdrawals (map add_month e)) = series_sum (map Withdrawals e)"
  "series_sum (map Deposits (map add_month e)) = series_sum (map Deposits e)"
  by (simp_all add: comp_def)

lemma bank_report_df:
  assumes "bank_report parse pages = Inr (Some rep)"
  shows "total_debit rep = series_sum (map Withdrawals (df rep))"
    and "total_credit rep = series_sum (map Deposits (df rep))"
    and "monthly rep = monthly_of (df rep)"
    and "\<forall>t \<in> set (df rep). Month t = map_option strftime_BY (Date t)"
proof -
  from bank_report_Some [OF assms] obtain d0 where
    d: "df rep = map add_category (map add_month (sort_values d0))" and
    w: "total_debit rep = series_sum (map Withdrawals (sort_values d0))" and
    c: "total_credit rep = series_sum (map Deposits (sort_values d0))" and
    m: "monthly rep = monthly_of (map add_month (sort_values d0))" by blast
  show "total_debit rep = series_sum (map Withdrawals (df rep))" using d w by (simp add: comp_def)
  show "total_credit rep = series_sum (map Deposits (df rep))" using d c by (simp add: comp_def)
  show "monthly rep = monthly_of (df rep)" by (simp only: d m monthly_of_add_category)
  show "\<forall>t \<in> set (df rep). Month t = map_option strftime_BY (Date t)" using d by auto
qed

lemma filter_known_unknown:
  "filter (\<lambda>t. Date t \<noteq> None) (filter (\<lambda>t. Date t = None) xs) = []"
  "filter (\<lambda>t. Date t = None) (filter (\<lambda>t. Date t \<noteq> None) xs) = []"
  by (induction xs) auto

lemma sort_values_split:
  "filter (\<lambda>t. Date t \<noteq> None) (sort_values xs)
     = sort_key (\<lambda>t. date_key (Date t)) (filter (\<lambda>t. Date t \<noteq> None) xs)"
  "filter (\<lambda>t. Date t = None) (sort_values xs) = filter (\<lambda>t. Date t = None) xs"
  unfolding sort_values_def filter_append filter_sort filter_known_unknown
  by simp_all

lemma sort_values_mset: "mset (sort_values xs) = mset xs"
  by (simp add: sort_values_def)

lemma strftime_feb: "strftime_BY \<lparr>year = 2023, mon = February, day = dd, tod = 0\<rparr> = ''February 2023''"
  by (simp add: strftime_BY_def dec_str.simps digit_char_def char_of_eq_iff)

lemma cat_cells:
  "categorize (PStr ''Salary Credit'') = ''Salary''"
  "categorize (PStr ''Loan EMI'') = ''Loan''"
  by (simp_all add: categorize_def lower_def lower_char_def startswith_def char_of_eq_iff)

lemma bank_report_scenario_any:
  "bank_report dayfirst_parse [Some [hdr, salary_row, loan_row]] = Inr (Some scenario_report)"
  unfolding bank_report_def Let_def clean_frame_scenario_any
  by (simp add: extract_scenario_any scenario_frame_def sort_values_def date_key_def ts_key_def
      add_month_def add_category_def strftime_feb cat_cells series_sum_def round64_eval
      fsub_def monthly_of_def category_summary_of_def group_keys_def
      List.map_filter_def scenario_report_def)

text \<open>
  Claim C3, as stated, fails: on the scenario's two rows the withdrawals are
  0 and -5000 (not 5000), the February 2023 withdrawal total is -5000, and the net
  cash flow is 55000 (not 45000).
\<close>

theorem scenario_end_to_end_counterexample:
  "bank_report dayfirst_parse [Some [header_row, salary_row, loan_row]] = Inr (Some scenario_report)
   \<and> map Withdrawals (df scenario_report) \<noteq> [Fin 0, Fin 5000]
   \<and> monthly scenario_report \<noteq> [(''February 2023'', Fin 5000, Fin 50000)]
   \<and> net_cash scenario_report \<noteq> Fin 45000"
  using bank_report_scenario_any [of header_row] by (simp add: scenario_report_def)

text \<open>
  Claim C3, amended.  For the two scenario rows (after any header row) the script
  produces exactly two transactions with withdrawals 0 and -5000.00, deposits
  50000.00 and 0, categories Salary and Loan, the monthly entry February 2023 with
  withdrawals -5000.00 and deposits 50000.00, and net cash flow 55000.00.
\<close>

theorem scenario_end_to_end:
  "\<exists>rep. bank_report dayfirst_parse [Some [hdr, salary_row, loan_row]] = Inr (Some rep)
     \<and> length (df rep) = 2
     \<and> map Withdrawals (df rep) = [Fin 0, Fin (- 5000)]
     \<and> map Deposits (df rep) = [Fin 50000, Fin 0]
     \<and> map Category (df rep) = [''Salary'', ''Loan'']
     \<and> monthly rep = [(''February 2023'', Fin (- 5000), Fin 50000)]
     \<and> total_debit rep = Fin (- 5000) \<and> total_credit rep = Fin 50000
     \<and> net_cash rep = Fin 55000"
  using bank_report_scenario_any [of hdr] by (simp add: scenario_report_def)

subsection \<open>A statement with an unreadable date\<close>

lemma mixed_amount_cells:
  "clean_amount (PStr ''200'') = Inr (Fin 200)"
  "clean_amount (PStr ''100'') = Inr (Fin 100)"
  "clean_amount (PStr ''50'') = Inr (Fin 50)"
  "clean_amount (PStr ''800'') = Inr (Fin 800)"
  "clean_amount (PStr ''700'') = Inr (Fin 700)"
  "clean_amount (PStr ''1,000'') = Inr (Fin 1000)"
  by (simp_all add: float_eval)

lemma mixed_date_cells:
  "dayfirst_parse col (PStr ''n/a'') = None"
  by (simp add: date_eval)

lemma mixed_cat_cells:
  "categorize (PStr ''Salary'') = ''Salary''"
  "categorize (PStr ''ATM cash'') = ''Others''"
  by (simp_all add: categorize_def lower_def lower_char_def startswith_def char_of_eq_iff)

lemma mixed_clean_frame:
  "clean_frame dayfirst_parse (extract_rows mixed_pages) =
     Inr [\<lparr>Date = Some \<lparr>year = 2023, mon = February, day = 5, tod = 0\<rparr>,
              Particulars = PStr ''Loan EMI'', Withdrawals = Fin 200, Deposits = Fin 0,
              Balance = Fin 800\<rparr>,
          \<lparr>Date = None,
              Particulars = PStr ''ATM cash'', Withdrawals = Fin 100, Deposits = Fin 0,
              Balance = Fin 700\<rparr>,
          \<lparr>Date = Some \<lparr>year = 2023, mon = February, day = 1, tod = 0\<rparr>,
              Particulars = PStr ''Salary'', Withdrawals = Fin 0, Deposits = Fin 50,
              Balance = Fin 1000\<rparr>]"
  by (simp add: mixed_pages_def header_row_def extract_rows_def row_dict_def clean_frame_def
      amount_cells mixed_amount_cells to_datetime_def date_cells mixed_date_cells)

lemma mixed_rows_nonempty: "extract_rows mixed_pages \<noteq> []"
  by (simp add: mixed_pages_def header_row_def extract_rows_def)

lemma bank_report_mixed:
  "bank_report dayfirst_parse mixed_pages = Inr (Some mixed_report)"
  unfolding bank_report_def Let_def mixed_clean_frame
  by (simp add: mixed_rows_nonempty sort_values_def date_key_def ts_key_def add_month_def
      add_category_def strftime_feb cat_cells mixed_cat_cells series_sum_def round64_eval
      fsub_def monthly_of_def category_summary_of_def group_keys_def
      List.map_filter_def mixed_report_def)

subsection \<open>Sums over groups\<close>



lemma set_map_filter_id: "set (List.map_filter id ks) = {k. Some k \<in> set ks}"
  by (induction ks) (auto simp: List.map_filter_def)

lemma group_keys_props:
  "distinct (group_keys ks)" "sorted (group_keys ks)"
  "set (group_keys ks) = {k. Some k \<in> set ks}"
  by (simp_all add: group_keys_def set_map_filter_id)




lemma is_whole_of_int [simp]: "is_whole (Fin (of_int n))" "ival (Fin (of_int n)) = n"
  by (simp_all add: is_whole_def ival_def)








subsection \<open>Amounts that are not whole\<close>













text \<open>
  Claim C5, as stated, fails: the record of unknown date (withdrawal 100) is in the
  table and in the total of 300, but the monthly summary has the February 2023
  entry only, with withdrawals 200: there is no bucket for the unknown date.
\<close>

theorem monthly_buckets_counterexample:
  "bank_report dayfirst_parse mixed_pages = Inr (Some mixed_report)
   \<and> Date (df mixed_report ! 2) = None
   \<and> Withdrawals (df mixed_report ! 2) = Fin 100
   \<and> total_debit mixed_report = Fin 300
   \<and> monthly mixed_report = [(''February 2023'', Fin 200, Fin 50)]"
  using bank_report_mixed by (simp add: mixed_report_def)

text \<open>
  Claim C5, amended.  For every report, the monthly summary has exactly one entry
  per month label of the records with a known date, holding the withdrawal and
  deposit sums of the records with that label.  A record of unknown date has no
  month label and belongs to no entry; it stays in the table and is counted in the
  total withdrawal and deposit sums.
\<close>

theorem monthly_buckets_known_dates_only:
  assumes "bank_report parse pages = Inr (Some rep)"
  shows "set (map fst (monthly rep))
           = {strftime_BY d | d. \<exists>t \<in> set (df rep). Date t = Some d}
       \<and> distinct (map fst (monthly rep))
       \<and> (\<forall>(k, w, dp) \<in> set (monthly rep).
            w = series_sum (map Withdrawals
                  (filter (\<lambda>t. map_option strftime_BY (Date t) = Some k) (df rep)))
            \<and> dp = series_sum (map Deposits
                  (filter (\<lambda>t. map_option strftime_BY (Date t) = Some k) (df rep))))
       \<and> (\<forall>t \<in> set (df rep). Date t = None \<longrightarrow>
            Month t = None \<and> (\<forall>k \<in> set (map fst (monthly rep)). Month t \<noteq> Some k))
       \<and> total_debit rep = series_sum (map Withdrawals (df rep))
       \<and> total_credit rep = series_sum (map Deposits (df rep))"
proof -
  note m = bank_report_df(3) [OF assms] and mo = bank_report_df(4) [OF assms]
  have keys: "map fst (monthly rep) = group_keys (map Month (df rep))"
    by (simp add: m monthly_of_def comp_def)
  have fm: "\<And>k. filter (\<lambda>t. Month t = Some k) (df rep)
              = filter (\<lambda>t. map_option strftime_BY (Date t) = Some k) (df rep)"
    using mo by (intro filter_cong) auto
  have 1: "set (map fst (monthly rep))
           = {strftime_BY d | d. \<exists>t \<in> set (df rep). Date t = Some d}"
  proof (intro set_eqI iffI)
    fix k assume "k \<in> set (map fst (monthly rep))"
    then obtain t where "t \<in> set (df rep)" "Month t = Some k"
      unfolding keys group_keys_props(3) by auto
    with mo show "k \<in> {strftime_BY d | d. \<exists>t \<in> set (df rep). Date t = Some d}" by auto
  next
    fix k assume "k \<in> {strftime_BY d | d. \<exists>t \<in> set (df rep). Date t = Some d}"
    then obtain d t where "k = strftime_BY d" "t \<in> set (df rep)" "Date t = Some d" by blast
    with mo have "t \<in> set (df rep)" "Month t = Some k" by auto
    then have "Some k \<in> set (map Month (df rep))" by force
    then show "k \<in> set (map fst (monthly rep))" unfolding keys group_keys_props(3) by simp
  qed
  have 2: "distinct (map fst (monthly rep))" unfolding keys by (rule group_keys_props(1))
  have 3: "\<forall>(k, w, dp) \<in> set (monthly rep).
            w = series_sum (map Withdrawals
                  (filter (\<lambda>t. map_option strftime_BY (Date t) = Some k) (df rep)))
            \<and> dp = series_sum (map Deposits
                  (filter (\<lambda>t. map_option strftime_BY (Date t) = Some k) (df rep)))"
    unfolding m monthly_of_def fm by auto
  have 4: "\<forall>t \<in> set (df rep). Date t = None \<longrightarrow>
            Month t = None \<and> (\<forall>k \<in> set (map fst (monthly rep)). Month t \<noteq> Some k)"
    using mo by simp
  show ?thesis using 1 2 3 4 bank_report_df(1,2) [OF assms] by blast
qed

theorem monthly_buckets_known_dates_only_witness:
  "bank_report dayfirst_parse mixed_pages = Inr (Some mixed_report)
   \<and> distinct (map fst (monthly mixed_report))
   \<and> total_debit mixed_report = series_sum (map Withdrawals (df mixed_report))
   \<and> Date (df mixed_report ! 2) = None
   \<and> Month (df mixed_report ! 2) = None"
proof -
  have m: "df mixed_report ! 2 \<in> set (df mixed_report)"
    and d: "Date (df mixed_report ! 2) = None"
    by (simp_all add: mixed_report_def)
  from monthly_buckets_known_dates_only [OF bank_report_mixed] m d
  have "distinct (map fst (monthly mixed_report))
        \<and> total_debit mixed_report = series_sum (map Withdrawals (df mixed_report))
        \<and> Month (df mixed_report ! 2) = None"
    by blast
  with bank_report_mixed d show ?thesis by blast
qed

section \<open>Date order\<close>

text \<open>
  Claim C9.  In every report the records with a known date come first, in
  non-decreasing date order, and the records of unknown date come last, after all of
  them; no record is dropped: the table holds the normalized rows, one per
  extracted row.
\<close>

theorem df_sorted_by_date:
  assumes "bank_report parse pages = Inr (Some rep)"
  shows "df rep = filter (\<lambda>t. Date t \<noteq> None) (df rep) @ filter (\<lambda>t. Date t = None) (df rep)
       \<and> sorted (map (\<lambda>t. date_key (Date t)) (filter (\<lambda>t. Date t \<noteq> None) (df rep)))
       \<and> (\<exists>d0. clean_frame parse (extract_rows pages) = Inr d0
            \<and> mset (df rep) = mset (map (\<lambda>t. add_category (add_month t)) d0))
       \<and> length (df rep) = length (extract_rows pages)"
proof -
  from bank_report_Some [OF assms] obtain d0 where
    c: "clean_frame parse (extract_rows pages) = Inr d0" and
    d: "df rep = map add_category (map add_month (sort_values d0))" by blast
  let ?f = "\<lambda>t. add_category (add_month t)"
  have d': "df rep = map ?f (sort_values d0)" by (simp add: d)
  have fk: "filter (\<lambda>t. Date t \<noteq> None) (df rep)
              = map ?f (filter (\<lambda>t. Date t \<noteq> None) (sort_values d0))"
    by (simp add: d' filter_map comp_def)
  have fu: "filter (\<lambda>t. Date t = None) (df rep)
              = map ?f (filter (\<lambda>t. Date t = None) (sort_values d0))"
    by (simp add: d' filter_map comp_def)
  have sv: "sort_values d0 = filter (\<lambda>t. Date t \<noteq> None) (sort_values d0)
              @ filter (\<lambda>t. Date t = None) (sort_values d0)"
    unfolding sort_values_split by (simp add: sort_values_def)
  have 1: "df rep = filter (\<lambda>t. Date t \<noteq> None) (df rep) @ filter (\<lambda>t. Date t = None) (df rep)"
    unfolding fk fu map_append [symmetric] sv [symmetric] by (rule d')
  have "map (\<lambda>t. date_key (Date t)) (filter (\<lambda>t. Date t \<noteq> None) (df rep))
          = map (\<lambda>t. date_key (Date t))
              (sort_key (\<lambda>t. date_key (Date t)) (filter (\<lambda>t. Date t \<noteq> None) d0))"
    unfolding fk sort_values_split by (simp add: comp_def)
  then have 2: "sorted (map (\<lambda>t. date_key (Date t)) (filter (\<lambda>t. Date t \<noteq> None) (df rep)))"
    by (simp only: sorted_sort_key)
  have 3: "mset (df rep) = mset (map ?f d0)"
    unfolding d' mset_map sort_values_mset ..
  have "length (df rep) = length d0"
    using 3 by (metis length_map size_mset)
  then have 4: "length (df rep) = length (extract_rows pages)"
    using clean_frame_Inr(1) [OF c] by simp
  show ?thesis using 1 2 3 4 c by blast
qed

theorem df_sorted_by_date_witness:
  "bank_report dayfirst_parse mixed_pages = Inr (Some mixed_report)
   \<and> df mixed_report = filter (\<lambda>t. Date t \<noteq> None) (df mixed_report)
                        @ filter (\<lambda>t. Date t = None) (df mixed_report)
   \<and> sorted (map (\<lambda>t. date_key (Date t)) (filter (\<lambda>t. Date t \<noteq> None) (df mixed_report)))
   \<and> length (df mixed_report) = length (extract_rows mixed_pages)"
  using bank_report_mixed df_sorted_by_date [OF bank_report_mixed]
  by blast

end
